theory Spec2Isabelle
  imports Main "HOL-Library.Sublist" "HOL-Library.Multiset"
begin

section \<open>Data model (app/models/schemas.py)\<close>

datatype Platform = LINKEDIN

datatype AgentStatus = QUEUED | RUNNING | COMPLETED | FAILED

datatype AgentName = TREND | WRITER | PUBLISHER

text \<open>
  Exceptions of class \<open>Exception\<close> that the modelled code can meet: the \<open>ValueError\<close> of
  \<open>list.remove\<close>, the errors of reading a response body (\<open>resp.json()\<close> on a body that
  is not JSON, \<open>data["access_token"]\<close> on a body without that key), the \<open>IndexError\<close>
  of the writer's fence stripping, and a failure raised by an external collaborator (the
  language model, the similarity store, the socket). A \<open>KeyError\<close> carries the missing
  key, every other exception its message; \<open>str_exception\<close> is Python's \<open>str(e)\<close>,
  which shows the key of a \<open>KeyError\<close> between quotes.
\<close>

datatype exception =
  ValueError string | JSONDecodeError string | KeyError string | IndexError string
  | Failure string

fun str_exception :: "exception \<Rightarrow> string" where
  "str_exception (ValueError m) = m"
| "str_exception (JSONDecodeError m) = m"
| "str_exception (KeyError k) = [CHR 0x27] @ k @ [CHR 0x27]"
| "str_exception (IndexError m) = m"
| "str_exception (Failure m) = m"

record CampaignRequest =
  request_topic :: string
  platforms :: "Platform list"
  tone :: string
  target_audience :: string
  auto_publish :: bool

datatype json = JStr string | JBool bool | JList "string list"

record AgentEvent =
  event_campaign_id :: string
  agent :: AgentName
  event_status :: AgentStatus
  event_platform :: "Platform option"
  message :: string
  data :: "(string \<times> json) list option"

record ContentPiece =
  platform :: Platform
  content :: string
  hashtags :: "string list"
  scheduled_time :: "string option"
  published :: bool

record CampaignResponse =
  campaign_id :: string
  topic :: string
  status :: string
  response_content :: "ContentPiece list"
  trend_insights :: "string option"

section \<open>The connection manager (app/services/websocket_manager.py)\<close>

text \<open>
  A \<open>WebSocket\<close> object is compared by identity, so a handle is its identity.
  \<open>active_connections\<close> is a dict from campaign id to the list of its handles.
\<close>

type_synonym WebSocket = nat

type_synonym registry = "string \<rightharpoonup> WebSocket list"

text \<open>\<open>connect\<close>: \<open>accepted\<close> tells whether \<open>websocket.accept()\<close> returned.\<close>

definition connect :: "bool \<Rightarrow> WebSocket \<Rightarrow> string \<Rightarrow> registry \<Rightarrow> exception + registry" where
  "connect accepted websocket cid reg =
     (if \<not> accepted then Inl (Failure ''accept'')
      else case reg cid of
             None \<Rightarrow> Inr (reg(cid \<mapsto> [websocket]))
           | Some conns \<Rightarrow> Inr (reg(cid \<mapsto> conns @ [websocket])))"

text \<open>
  \<open>disconnect\<close>: \<open>list.remove\<close> deletes the first occurrence and raises \<open>ValueError\<close>
  when there is none; the entry of the campaign is deleted when its list becomes empty.
\<close>

definition disconnect :: "WebSocket \<Rightarrow> string \<Rightarrow> registry \<Rightarrow> exception + registry" where
  "disconnect websocket cid reg =
     (case reg cid of
        None \<Rightarrow> Inr reg
      | Some conns \<Rightarrow>
          if websocket \<notin> set conns then Inl (ValueError ''list.remove(x): x not in list'')
          else if remove1 websocket conns = [] then Inr (reg(cid := None))
          else Inr (reg(cid \<mapsto> remove1 websocket conns)))"

text \<open>The second loop of \<open>broadcast_event\<close>: \<open>for ws in dead: self.disconnect(ws, campaign_id)\<close>.\<close>

fun disconnect_dead :: "WebSocket list \<Rightarrow> string \<Rightarrow> registry \<Rightarrow> (exception + unit) \<times> registry" where
  "disconnect_dead [] cid reg = (Inr (), reg)"
| "disconnect_dead (ws # dead) cid reg =
     (case disconnect ws cid reg of
        Inl e \<Rightarrow> (Inl e, reg)
      | Inr reg' \<Rightarrow> disconnect_dead dead cid reg')"

text \<open>
  \<open>broadcast_event\<close> is a coroutine: it is suspended at each \<open>await ws.send_text\<close>,
  and other tasks run meanwhile. What they can do to the registry is what the socket
  endpoints do: a \<open>connect\<close> (past its accept) or a \<open>disconnect\<close>, each of them without
  suspension; an exception of such a \<open>disconnect\<close> stays in its own task and leaves the
  registry as it was.
\<close>

datatype registry_op = Connects WebSocket string | Disconnects WebSocket string

fun apply_op :: "registry_op \<Rightarrow> registry \<Rightarrow> registry" where
  "apply_op (Connects ws cid) reg =
     (case connect True ws cid reg of Inl e \<Rightarrow> reg | Inr reg' \<Rightarrow> reg')"
| "apply_op (Disconnects ws cid) reg =
     (case disconnect ws cid reg of Inl e \<Rightarrow> reg | Inr reg' \<Rightarrow> reg')"

text \<open>
  The loop \<open>for ws in self.active_connections[campaign_id]\<close> walks one list object by
  index. The other tasks change that object as long as it is the campaign's entry: a
  removal shifts the sockets behind it, an append is visited later. Once a \<open>disconnect\<close>
  has emptied the list and deleted the entry, the object stays empty, whatever is
  registered for the campaign afterwards. \<open>same\<close> tells whether the list of the loop is
  still the campaign's entry; \<open>interfere\<close> runs the operations of the other tasks
  during one suspension.
\<close>

fun interfere :: "string \<Rightarrow> registry_op list \<Rightarrow> bool \<Rightarrow> registry \<Rightarrow> bool \<times> registry" where
  "interfere cid [] same reg = (same, reg)"
| "interfere cid (act # acts) same reg =
     interfere cid acts (same \<and> apply_op act reg cid \<noteq> None) (apply_op act reg)"

definition iterated :: "bool \<Rightarrow> registry \<Rightarrow> string \<Rightarrow> WebSocket list" where
  "iterated same reg cid =
     (if same then (case reg cid of None \<Rightarrow> [] | Some conns \<Rightarrow> conns) else [])"

text \<open>
  The sends over a list that no other task changes any more: \<open>send_ok i ws\<close> tells
  whether the send at index \<open>i\<close> of the loop, which goes to \<open>ws\<close>, returns (otherwise
  it raises an \<open>Exception\<close>, which the loop catches). The result is the sockets that
  received the payload and the list \<open>dead\<close>, both in the order of the loop.
\<close>

fun send_all ::
  "(nat \<Rightarrow> WebSocket \<Rightarrow> bool) \<Rightarrow> nat \<Rightarrow> WebSocket list \<Rightarrow> WebSocket list \<times> WebSocket list" where
  "send_all send_ok i [] = ([], [])"
| "send_all send_ok i (ws # rest) =
     (case send_all send_ok (Suc i) rest of
        (sent, dead) \<Rightarrow> if send_ok i ws then (ws # sent, dead) else (sent, ws # dead))"

text \<open>
  The first loop of \<open>broadcast_event\<close>, from index \<open>i\<close> on. \<open>meanwhile\<close> lists, for
  each coming suspension in turn, what the other tasks do during it; after the last
  entry they leave the registry alone. The result is the sockets that received the
  payload, the list \<open>dead\<close> and the registry at the end of the loop.
\<close>

fun send_loop ::
  "(nat \<Rightarrow> WebSocket \<Rightarrow> bool) \<Rightarrow> string \<Rightarrow> registry_op list list \<Rightarrow> nat \<Rightarrow> bool \<Rightarrow> registry
     \<Rightarrow> WebSocket list \<times> WebSocket list \<times> registry" where
  "send_loop send_ok cid [] i same reg =
     (fst (send_all send_ok i (drop i (iterated same reg cid))),
      snd (send_all send_ok i (drop i (iterated same reg cid))),
      reg)"
| "send_loop send_ok cid (acts # meanwhile) i same reg =
     (if i < length (iterated same reg cid) then
        (case send_loop send_ok cid meanwhile (Suc i)
                (fst (interfere cid acts same reg)) (snd (interfere cid acts same reg)) of
           (sent, dead, reg') \<Rightarrow>
             if send_ok i (iterated same reg cid ! i)
             then (iterated same reg cid ! i # sent, dead, reg')
             else (sent, iterated same reg cid ! i # dead, reg'))
      else ([], [], reg))"

text \<open>
  \<open>broadcast_event\<close>: the outcome, the registry afterwards, and the deliveries made.
  The second loop has no suspension.
\<close>

definition broadcast_event ::
  "(nat \<Rightarrow> WebSocket \<Rightarrow> bool) \<Rightarrow> registry_op list list \<Rightarrow> AgentEvent \<Rightarrow> registry
     \<Rightarrow> (exception + unit) \<times> registry \<times> (WebSocket \<times> AgentEvent) list" where
  "broadcast_event send_ok meanwhile event reg =
     (case reg (event_campaign_id event) of
        None \<Rightarrow> (Inr (), reg, [])
      | Some conns \<Rightarrow>
          (case send_loop send_ok (event_campaign_id event) meanwhile 0 True reg of
             (sent, dead, reg') \<Rightarrow>
               (case disconnect_dead dead (event_campaign_id event) reg' of
                  (r, reg'') \<Rightarrow> (r, reg'', map (\<lambda>ws. (ws, event)) sent))))"

section \<open>The external world\<close>

text \<open>
  Replies of the services the code calls. A request either raises \<open>httpx.HTTPError\<close>
  or returns a status code; a body is read only where the code reads it (after a status
  200 of the userinfo and token endpoints), and reading it can raise: \<open>resp.json()\<close>
  on a body that is not JSON (with the decoder's message), \<open>data["access_token"]\<close> on
  a body without that key.
\<close>

datatype reply = Response int | HTTPError

datatype userinfo_body = NotJSON string | Sub string

datatype userinfo_reply = UserInfo int userinfo_body | UserInfoError

datatype token_body = TokenNotJSON string | TokenMissing | Tokens string "string option"

datatype token_reply = Token int token_body | TokenError

record post_request =
  author :: string
  commentary :: string
  authorization :: string

record search_hit =
  hit_platform :: string
  hit_engagement :: string
  hit_text :: string

text \<open>
  The state the code reads and writes, with the logs of what it did to the outside:
  the fields of the \<open>PublisherAgent\<close> instance, the mutable \<open>settings\<close>, the registry of
  \<open>ws_manager\<close>, and one log for each kind of external call. \<open>emitted\<close> lists the
  events handed to \<open>broadcast_event\<close>, \<open>wire\<close> the payloads that reached a socket,
  \<open>posts\<close> each request to \<open>/rest/posts\<close> with its reply, \<open>userinfo_log\<close> the bearer
  token of each userinfo request, \<open>refresh_log\<close> the outcome of each call of
  \<open>_refresh_token\<close>, \<open>sleeps\<close> the back-off delays in seconds, \<open>stored\<close> the
  arguments of each \<open>store_campaign_results\<close>, \<open>llm_calls\<close> the prompt variables of
  each model invocation.
\<close>

record world =
  access_token :: string
  cached_user_urn :: "string option"
  LINKEDIN_ACCESS_TOKEN :: string
  LINKEDIN_REFRESH_TOKEN :: string
  LINKEDIN_CLIENT_ID :: string
  active_connections :: registry
  emitted :: "AgentEvent list"
  wire :: "(WebSocket \<times> AgentEvent) list"
  posts :: "(post_request \<times> reply) list"
  userinfo_log :: "string list"
  token_calls :: nat
  refresh_log :: "(exception + bool) list"
  sleeps :: "nat list"
  stored :: "(string \<times> string \<times> string) list"
  searches :: nat
  llm_calls :: "(AgentName \<times> string list) list"

text \<open>
  What the outside answers, call by call: the \<open>n\<close>-th call of a kind gets the \<open>n\<close>-th
  answer. \<open>send_text n i ws\<close> tells whether the send at index \<open>i\<close> of the \<open>n\<close>-th
  broadcast, which goes to \<open>ws\<close>, returns. \<open>arrivals n\<close> is what the other tasks did
  to the registry between the broadcast before and the \<open>n\<close>-th one, \<open>meanwhile n\<close>
  what they do during each suspension of the \<open>n\<close>-th one. \<open>parse_reply\<close> stands for
  the JSON reading of the writer (fence stripping, \<open>json.loads\<close>, the two
  \<open>parsed.get\<close>): an \<open>Inl\<close> when it raises, else the "content" and "hashtags"
  entries, each absent or present.
  \<open>uuid4\<close> is the text of the identifier drawn when the caller gives none.
\<close>

record env =
  send_text :: "nat \<Rightarrow> nat \<Rightarrow> WebSocket \<Rightarrow> bool"
  arrivals :: "nat \<Rightarrow> registry_op list"
  meanwhile :: "nat \<Rightarrow> registry_op list list"
  post_reply :: "nat \<Rightarrow> reply"
  userinfo_reply :: "nat \<Rightarrow> userinfo_reply"
  token_reply :: "nat \<Rightarrow> token_reply"
  store_reply :: "nat \<Rightarrow> exception option"
  search_reply :: "nat \<Rightarrow> exception + search_hit list"
  llm_reply :: "nat \<Rightarrow> exception + string"
  parse_reply :: "string \<Rightarrow> exception + (string option \<times> string list option)"
  uuid4 :: string

type_synonym 'a action = "world \<Rightarrow> (exception + 'a) \<times> world"

text \<open>Sequencing: an exception of the first action skips the second.\<close>

definition bind :: "'a action \<Rightarrow> ('a \<Rightarrow> 'b action) \<Rightarrow> 'b action" where
  "bind m f w = (case m w of (Inl e, w') \<Rightarrow> (Inl e, w') | (Inr x, w') \<Rightarrow> f x w')"

definition return :: "'a \<Rightarrow> 'a action" where
  "return x w = (Inr x, w)"

text \<open>Python's truth value of a \<open>str | None\<close>.\<close>

fun truthy :: "string option \<Rightarrow> bool" where
  "truthy None = False"
| "truthy (Some s) = (s \<noteq> [])"

fun join :: "string \<Rightarrow> string list \<Rightarrow> string" where
  "join sep [] = []"
| "join sep [x] = x"
| "join sep (x # y # ys) = x @ sep @ join sep (y # ys)"

fun str_nat :: "nat \<Rightarrow> string" where
  "str_nat n = (if n < 10 then [char_of (48 + n)]
                else str_nat (n div 10) @ [char_of (48 + n mod 10)])"

declare str_nat.simps [simp del]

fun Platform_value :: "Platform \<Rightarrow> string" where
  "Platform_value LINKEDIN = ''linkedin''"

text \<open>
  A call of \<open>ws_manager.broadcast_event\<close>: what was sent before an exception of the
  second loop stays sent.
\<close>

definition ws_broadcast :: "env \<Rightarrow> AgentEvent \<Rightarrow> unit action" where
  "ws_broadcast env event w =
     (case broadcast_event (send_text env (length (emitted w)))
             (meanwhile env (length (emitted w))) event
             (fold apply_op (arrivals env (length (emitted w))) (active_connections w)) of
        (r, reg', sent) \<Rightarrow>
          (r, w\<lparr>active_connections := reg',
                emitted := emitted w @ [event],
                wire := wire w @ sent\<rparr>))"

text \<open>
  \<open>pinecone_service.store_campaign_results\<close>: the call is logged; it returns (having
  stored, or skipped while the index loads) or raises.
\<close>

definition store_campaign_results :: "env \<Rightarrow> string \<Rightarrow> string \<Rightarrow> string \<Rightarrow> unit action" where
  "store_campaign_results env cid plat text w =
     (case store_reply env (length (stored w)) of
        None \<Rightarrow> (Inr (), w\<lparr>stored := stored w @ [(cid, plat, text)]\<rparr>)
      | Some e \<Rightarrow> (Inl e, w\<lparr>stored := stored w @ [(cid, plat, text)]\<rparr>))"

definition search_similar :: "env \<Rightarrow> (search_hit list) action" where
  "search_similar env w = (search_reply env (searches w), w\<lparr>searches := Suc (searches w)\<rparr>)"

definition llm_invoke :: "env \<Rightarrow> AgentName \<Rightarrow> string list \<Rightarrow> string action" where
  "llm_invoke env who vars w =
     (llm_reply env (length (llm_calls w)), w\<lparr>llm_calls := llm_calls w @ [(who, vars)]\<rparr>)"

section \<open>The publisher (app/agents/publisher_agent.py)\<close>

definition get_user_urn :: "env \<Rightarrow> (string option) action" where
  "get_user_urn env w =
     (if truthy (cached_user_urn w) then (Inr (cached_user_urn w), w)
      else
        let w1 = w\<lparr>userinfo_log := userinfo_log w @ [''Bearer '' @ access_token w]\<rparr>
        in case userinfo_reply env (length (userinfo_log w)) of
             UserInfoError \<Rightarrow> (Inr None, w1)
           | UserInfo code body \<Rightarrow>
               if code \<noteq> 200 then (Inr None, w1)
               else (case body of
                       NotJSON m \<Rightarrow> (Inl (JSONDecodeError m), w1)
                     | Sub user_sub \<Rightarrow>
                         if user_sub \<noteq> []
                         then (Inr (Some (''urn:li:person:'' @ user_sub)),
                               w1\<lparr>cached_user_urn := Some (''urn:li:person:'' @ user_sub)\<rparr>)
                         else (Inr (cached_user_urn w1), w1)))"

text \<open>The body of \<open>_refresh_token\<close>; \<open>os.environ\<close> receives the same values as \<open>settings\<close>.\<close>

definition refresh_exchange :: "env \<Rightarrow> bool action" where
  "refresh_exchange env w =
     (if LINKEDIN_REFRESH_TOKEN w = [] \<or> LINKEDIN_CLIENT_ID w = [] then (Inr False, w)
      else
        let w1 = w\<lparr>token_calls := Suc (token_calls w)\<rparr>
        in case token_reply env (token_calls w) of
             TokenError \<Rightarrow> (Inr False, w1)
           | Token code body \<Rightarrow>
               if code \<noteq> 200 then (Inr False, w1)
               else (case body of
                       TokenNotJSON m \<Rightarrow> (Inl (JSONDecodeError m), w1)
                     | TokenMissing \<Rightarrow> (Inl (KeyError ''access_token''), w1)
                     | Tokens new_access new_refresh \<Rightarrow>
                         (Inr True,
                          w1\<lparr>access_token := new_access,
                             LINKEDIN_REFRESH_TOKEN :=
                               (case new_refresh of
                                  None \<Rightarrow> LINKEDIN_REFRESH_TOKEN w
                                | Some r \<Rightarrow> if r \<noteq> [] then r else LINKEDIN_REFRESH_TOKEN w),
                             LINKEDIN_ACCESS_TOKEN := new_access,
                             cached_user_urn := None\<rparr>)))"

text \<open>\<open>_refresh_token\<close>, with its outcome appended to \<open>refresh_log\<close>.\<close>

definition refresh_token :: "env \<Rightarrow> bool action" where
  "refresh_token env w =
     (case refresh_exchange env w of
        (r, w') \<Rightarrow> (r, w'\<lparr>refresh_log := refresh_log w' @ [r]\<rparr>))"

text \<open>
  The text sent: the hashtags appended as a trailer when there are any, then the cut to
  3000 characters.
\<close>

definition outgoing_text :: "ContentPiece \<Rightarrow> string" where
  "outgoing_text piece =
     take 3000
       (if hashtags piece \<noteq> []
        then content piece @ [CHR 0x0A, CHR 0x0A] @ join '' '' (map (\<lambda>t. ''#'' @ t) (hashtags piece))
        else content piece)"

text \<open>
  One pass of the loop \<open>for attempt in range(1, max_retries + 1)\<close>: it ends the call
  with \<open>Return\<close>, or goes to the next value of \<open>attempt\<close> with the current
  \<open>token_refreshed\<close>, \<open>payload["author"]\<close> and \<open>headers["Authorization"]\<close>.
  The \<open>continue\<close> after a refresh skips the back-off sleep at the end of the pass.
\<close>

datatype loop_control = Return bool | Next bool string string

definition backoff :: "nat \<Rightarrow> nat \<Rightarrow> world \<Rightarrow> world" where
  "backoff attempt max_retries w =
     (if attempt < max_retries then w\<lparr>sleeps := sleeps w @ [2 ^ attempt]\<rparr> else w)"

definition attempt_body ::
  "env \<Rightarrow> nat \<Rightarrow> string \<Rightarrow> nat \<Rightarrow> bool \<Rightarrow> string \<Rightarrow> string \<Rightarrow> loop_control action" where
  "attempt_body env max_retries text attempt token_refreshed payload_author header w =
     (let resp = post_reply env (length (posts w));
          w1 = w\<lparr>posts := posts w @
                 [(\<lparr>author = payload_author, commentary = text, authorization = header\<rparr>, resp)]\<rparr>
      in case resp of
           HTTPError \<Rightarrow>
             (Inr (Next token_refreshed payload_author header), backoff attempt max_retries w1)
         | Response code \<Rightarrow>
             if code = 200 \<or> code = 201 then (Inr (Return True), w1)
             else if code = 401 \<and> \<not> token_refreshed then
               (case refresh_token env w1 of
                  (Inl e, w2) \<Rightarrow> (Inl e, w2)
                | (Inr refreshed, w2) \<Rightarrow>
                    if refreshed then
                      (case get_user_urn env w2 of
                         (Inl e, w3) \<Rightarrow> (Inl e, w3)
                       | (Inr new_author, w3) \<Rightarrow>
                           (Inr (Next True
                                  (case new_author of
                                     None \<Rightarrow> payload_author
                                   | Some a \<Rightarrow> if a \<noteq> [] then a else payload_author)
                                  (''Bearer '' @ access_token w2)), w3))
                    else (Inr (Return False), w2))
             else if code = 403 then (Inr (Return False), w1)
             else (Inr (Next token_refreshed payload_author header),
                   backoff attempt max_retries w1))"

fun publish_attempts ::
  "env \<Rightarrow> nat \<Rightarrow> string \<Rightarrow> nat list \<Rightarrow> bool \<Rightarrow> string \<Rightarrow> string \<Rightarrow> bool action" where
  "publish_attempts env max_retries text [] token_refreshed payload_author header w =
     (Inr False, w)"
| "publish_attempts env max_retries text (attempt # rest) token_refreshed payload_author header w =
     (case attempt_body env max_retries text attempt token_refreshed payload_author header w of
        (Inl e, w') \<Rightarrow> (Inl e, w')
      | (Inr (Return b), w') \<Rightarrow> (Inr b, w')
      | (Inr (Next refreshed a h), w') \<Rightarrow> publish_attempts env max_retries text rest refreshed a h w')"

definition publish_linkedin :: "env \<Rightarrow> ContentPiece \<Rightarrow> nat \<Rightarrow> bool action" where
  "publish_linkedin env piece max_retries w =
     (if access_token w = [] then (Inr False, w)
      else case get_user_urn env w of
             (Inl e, w1) \<Rightarrow> (Inl e, w1)
           | (Inr None, w1) \<Rightarrow> (Inr False, w1)
           | (Inr (Some a), w1) \<Rightarrow>
               if a = [] then (Inr False, w1)
               else publish_attempts env max_retries (outgoing_text piece)
                      [1..<Suc max_retries] False a (''Bearer '' @ access_token w1) w1)"

text \<open>
  \<open>PublisherAgent.run\<close>, one pass of its loop. The piece is an object changed in place,
  so the pass gives the piece back also when it ends with an exception. The pacing
  \<open>asyncio.sleep(0.5)\<close> changes nothing and is left out; the pictographs of the message
  texts are left out as well.
\<close>

definition new_event ::
  "string \<Rightarrow> AgentName \<Rightarrow> AgentStatus \<Rightarrow> Platform option \<Rightarrow> string
     \<Rightarrow> (string \<times> json) list option \<Rightarrow> AgentEvent" where
  "new_event cid who st plat msg dat =
     \<lparr>event_campaign_id = cid, agent = who, event_status = st, event_platform = plat,
      message = msg, data = dat\<rparr>"

definition publish_or_save ::
  "env \<Rightarrow> string \<Rightarrow> bool \<Rightarrow> ContentPiece \<Rightarrow> world
     \<Rightarrow> (exception + unit) \<times> ContentPiece \<times> world" where
  "publish_or_save env cid auto piece w =
     (if auto then
        (case ws_broadcast env
                (new_event cid PUBLISHER RUNNING (Some (platform piece))
                   ''Publishing to LinkedIn...'' None) w of
           (Inl e, w1) \<Rightarrow> (Inl e, piece, w1)
         | (Inr u, w1) \<Rightarrow>
             (case publish_linkedin env piece 3 w1 of
                (Inl e, w2) \<Rightarrow> (Inl e, piece, w2)
              | (Inr success, w2) \<Rightarrow>
                  if success then
                    (case ws_broadcast env
                            (new_event cid PUBLISHER COMPLETED (Some (platform piece))
                               ''Published to LinkedIn!'' None) w2 of
                       (r, w3) \<Rightarrow> (r, piece\<lparr>published := True\<rparr>, w3))
                  else
                    (case ws_broadcast env
                            (new_event cid PUBLISHER FAILED (Some (platform piece))
                               ''Failed to publish to LinkedIn. Saved as draft.'' None) w2 of
                       (r, w3) \<Rightarrow> (r, piece, w3))))
      else
        (case ws_broadcast env
                (new_event cid PUBLISHER COMPLETED (Some (platform piece))
                   ''LinkedIn content saved as draft (auto-publish off)'' None) w of
           (r, w1) \<Rightarrow> (r, piece, w1)))"

definition publisher_piece ::
  "env \<Rightarrow> string \<Rightarrow> bool \<Rightarrow> ContentPiece \<Rightarrow> world
     \<Rightarrow> (exception + unit) \<times> ContentPiece \<times> world" where
  "publisher_piece env cid auto piece w =
     (case publish_or_save env cid auto piece w of
        (Inl e, piece', w1) \<Rightarrow> (Inl e, piece', w1)
      | (Inr u, piece', w1) \<Rightarrow>
          (case store_campaign_results env cid (Platform_value (platform piece'))
                  (content piece') w1 of
             (r, w2) \<Rightarrow> (r, piece', w2)))"

text \<open>
  \<open>PublisherAgent.run\<close>: the list it gives back is the list it was given, with the
  pieces as the passes left them; an exception leaves the remaining pieces untouched.
\<close>

fun PublisherAgent_run ::
  "env \<Rightarrow> string \<Rightarrow> ContentPiece list \<Rightarrow> bool \<Rightarrow> world
     \<Rightarrow> (exception + unit) \<times> ContentPiece list \<times> world" where
  "PublisherAgent_run env cid [] auto w = (Inr (), [], w)"
| "PublisherAgent_run env cid (piece # rest) auto w =
     (case publisher_piece env cid auto piece w of
        (Inl e, piece', w1) \<Rightarrow> (Inl e, piece' # rest, w1)
      | (Inr u, piece', w1) \<Rightarrow>
          (case PublisherAgent_run env cid rest auto w1 of
             (r, rest', w2) \<Rightarrow> (r, piece' # rest', w2)))"

section \<open>The trend agent and the writer (app/agents/trend_agent.py, writer_agent.py)\<close>

text \<open>
  Both agents are sequences of broadcasts and collaborator calls; an exception of a
  collaborator leaves the agent at that point. Their pacing sleeps are left out, and so
  are the pictographs of the message texts.
\<close>

definition past_content_str :: "search_hit list \<Rightarrow> string" where
  "past_content_str past_results =
     (if past_results \<noteq> []
      then join [CHR 0x0A]
             (map (\<lambda>r. ''- [Platform: '' @ hit_platform r @ '', Engagement: '' @ hit_engagement r
                          @ ''] '' @ take 200 (hit_text r)) past_results)
      else ''No past content found - this is a fresh topic.'')"

definition TrendAgent_run ::
  "env \<Rightarrow> string \<Rightarrow> string \<Rightarrow> string \<Rightarrow> string \<Rightarrow> string list \<Rightarrow> string action" where
  "TrendAgent_run env cid topic_text audience tone_text platform_names =
     bind (ws_broadcast env
            (new_event cid TREND RUNNING None
               (''Searching past content for '' @ [CHR 0x27] @ topic_text @ [CHR 0x27] @ ''...'')
               None)) (\<lambda>u1.
     bind (search_similar env) (\<lambda>past_results.
     bind (ws_broadcast env
            (new_event cid TREND RUNNING None
               (''Found '' @ str_nat (length past_results)
                  @ '' similar past posts. Analyzing trends...'') None)) (\<lambda>u2.
     bind (llm_invoke env TREND
            [topic_text, audience, tone_text, join '', '' platform_names,
             past_content_str past_results]) (\<lambda>brief.
     bind (ws_broadcast env
            (new_event cid TREND COMPLETED None
               ''Trend analysis complete. Strategic brief ready.''
               (Some [(''brief_preview'', JStr (take 200 brief))]))) (\<lambda>u3.
     return brief)))))"

definition LINKEDIN_RULES_style :: string where
  "LINKEDIN_RULES_style =
     ''Professional, thought-leadership. Use line breaks for readability. Start with a hook. End with a CTA or question.''"

text \<open>
  The writer's reading of the model's answer: the \<open>except\<close> clause catches
  \<open>JSONDecodeError\<close> and \<open>IndexError\<close>, and its fallback keeps the whole answer as
  the content, with no hashtags.
\<close>

fun caught_by_writer :: "exception \<Rightarrow> bool" where
  "caught_by_writer (JSONDecodeError m) = True"
| "caught_by_writer (IndexError m) = True"
| "caught_by_writer e = False"

definition parse_content :: "env \<Rightarrow> string \<Rightarrow> (string \<times> string list) action" where
  "parse_content env result w =
     (case parse_reply env result of
        Inl e \<Rightarrow> if caught_by_writer e then (Inr (result, []), w) else (Inl e, w)
      | Inr (c, h) \<Rightarrow>
          (Inr (case c of None \<Rightarrow> [] | Some text \<Rightarrow> text,
                case h of None \<Rightarrow> [] | Some tags \<Rightarrow> tags), w))"

definition write_piece ::
  "env \<Rightarrow> string \<Rightarrow> string \<Rightarrow> string \<Rightarrow> string \<Rightarrow> string \<Rightarrow> Platform \<Rightarrow> ContentPiece action" where
  "write_piece env cid topic_text tone_text audience brief plat =
     bind (ws_broadcast env
            (new_event cid WRITER RUNNING (Some plat) ''Writing LinkedIn post...'' None)) (\<lambda>u1.
     bind (llm_invoke env WRITER
            [LINKEDIN_RULES_style, ''3000'', brief, topic_text, tone_text, audience]) (\<lambda>result.
     bind (parse_content env result) (\<lambda>parsed.
     bind (ws_broadcast env
            (new_event cid WRITER COMPLETED (Some plat)
               (''LinkedIn content ready (''
                  @ str_nat (length (if 3000 < length (fst parsed) then take 3000 (fst parsed)
                                     else fst parsed)) @ '' chars)'')
               (Some [(''preview'',
                       JStr (take 150 (if 3000 < length (fst parsed) then take 3000 (fst parsed)
                                       else fst parsed))),
                      (''hashtags'', JList (snd parsed))]))) (\<lambda>u2.
     return \<lparr>platform = plat,
             content = (if 3000 < length (fst parsed) then take 3000 (fst parsed)
                        else fst parsed),
             hashtags = snd parsed,
             scheduled_time = None,
             published = False\<rparr>))))"

fun writer_loop ::
  "env \<Rightarrow> string \<Rightarrow> string \<Rightarrow> string \<Rightarrow> string \<Rightarrow> string \<Rightarrow> Platform list
     \<Rightarrow> ContentPiece list \<Rightarrow> (ContentPiece list) action" where
  "writer_loop env cid topic_text tone_text audience brief [] content_pieces w =
     (Inr content_pieces, w)"
| "writer_loop env cid topic_text tone_text audience brief (plat # rest) content_pieces w =
     (case write_piece env cid topic_text tone_text audience brief plat w of
        (Inl e, w1) \<Rightarrow> (Inl e, w1)
      | (Inr piece, w1) \<Rightarrow>
          writer_loop env cid topic_text tone_text audience brief rest
            (content_pieces @ [piece]) w1)"

definition WriterAgent_run ::
  "env \<Rightarrow> string \<Rightarrow> string \<Rightarrow> string \<Rightarrow> string \<Rightarrow> Platform list \<Rightarrow> string
     \<Rightarrow> (ContentPiece list) action" where
  "WriterAgent_run env cid topic_text tone_text audience plats brief =
     writer_loop env cid topic_text tone_text audience brief plats []"

section \<open>The orchestrator (app/agents/orchestrator.py)\<close>

text \<open>
  \<open>run_campaign\<close>. Each \<open>except Exception\<close> clause broadcasts a final \<open>failed\<close> event
  and returns the response; the broadcasts of the clauses and of the last step are
  outside every \<open>try\<close>, so an exception of theirs would leave \<open>run_campaign\<close>.
\<close>

definition final_event :: "string \<Rightarrow> AgentName \<Rightarrow> AgentStatus \<Rightarrow> string \<Rightarrow> AgentEvent" where
  "final_event cid who st msg = new_event cid who st None msg (Some [(''final'', JBool True)])"

text \<open>The campaign id: the caller's when it is given and not empty, else a fresh one.\<close>

definition chosen_campaign_id :: "env \<Rightarrow> string option \<Rightarrow> string" where
  "chosen_campaign_id env campaign_id_arg =
     (if truthy campaign_id_arg
      then (case campaign_id_arg of Some c \<Rightarrow> c | None \<Rightarrow> [])
      else take 8 (uuid4 env))"

text \<open>The three calls of \<open>run_campaign\<close>, each with the arguments it passes.\<close>

definition research_stage :: "env \<Rightarrow> CampaignRequest \<Rightarrow> string \<Rightarrow> string action" where
  "research_stage env request cid =
     TrendAgent_run env cid (request_topic request) (target_audience request) (tone request)
       (map Platform_value (platforms request))"

definition draft_stage ::
  "env \<Rightarrow> CampaignRequest \<Rightarrow> string \<Rightarrow> string \<Rightarrow> (ContentPiece list) action" where
  "draft_stage env request cid brief =
     WriterAgent_run env cid (request_topic request) (tone request) (target_audience request)
       (platforms request) brief"

definition publish_stage ::
  "env \<Rightarrow> CampaignRequest \<Rightarrow> string \<Rightarrow> ContentPiece list \<Rightarrow> world
     \<Rightarrow> (exception + unit) \<times> ContentPiece list \<times> world" where
  "publish_stage env request cid content_pieces =
     PublisherAgent_run env cid content_pieces (auto_publish request)"

definition CampaignResponse_of ::
  "string \<Rightarrow> CampaignRequest \<Rightarrow> string \<Rightarrow> ContentPiece list \<Rightarrow> string \<Rightarrow> CampaignResponse" where
  "CampaignResponse_of cid request st pieces insights =
     \<lparr>campaign_id = cid, topic = request_topic request, status = st,
      response_content = pieces, trend_insights = Some insights\<rparr>"

definition run_campaign ::
  "env \<Rightarrow> CampaignRequest \<Rightarrow> string option \<Rightarrow> CampaignResponse action" where
  "run_campaign env request campaign_id_arg w =
     (let cid = chosen_campaign_id env campaign_id_arg
      in case research_stage env request cid w of
           (Inl e, w1) \<Rightarrow>
             bind (ws_broadcast env
                    (final_event cid TREND FAILED (''Trend Agent failed: '' @ str_exception e)))
               (\<lambda>u. return (CampaignResponse_of cid request ''failed'' []
                               (''Error: '' @ str_exception e))) w1
         | (Inr brief, w1) \<Rightarrow>
             (case draft_stage env request cid brief w1 of
                (Inl e, w2) \<Rightarrow>
                  bind (ws_broadcast env
                         (final_event cid WRITER FAILED
                            (''Writer Agent failed: '' @ str_exception e)))
                    (\<lambda>u. return (CampaignResponse_of cid request ''failed'' [] brief)) w2
              | (Inr content_pieces, w2) \<Rightarrow>
                  (case publish_stage env request cid content_pieces w2 of
                     (Inl e, pieces, w3) \<Rightarrow>
                       bind (ws_broadcast env
                              (final_event cid PUBLISHER FAILED
                                 (''Publisher Agent failed: '' @ str_exception e)))
                         (\<lambda>u. return (CampaignResponse_of cid request ''failed'' pieces brief))
                         w3
                   | (Inr u, pieces, w3) \<Rightarrow>
                       bind (ws_broadcast env
                              (final_event cid PUBLISHER COMPLETED
                                 ''Campaign complete! All content ready.''))
                         (\<lambda>u. return (CampaignResponse_of cid request ''completed'' pieces
                                         brief))
                         w3)))"

section \<open>Concrete inputs\<close>

definition sample_event :: AgentEvent where
  "sample_event =
     \<lparr>event_campaign_id = ''camp1'', agent = PUBLISHER, event_status = RUNNING,
      event_platform = Some LINKEDIN, message = ''Publishing to LinkedIn...'', data = None\<rparr>"

definition sample_registry :: registry where
  "sample_registry = [''camp1'' \<mapsto> [1, 2, 3], ''camp2'' \<mapsto> [4]]"

definition first_is_dead :: "nat \<Rightarrow> WebSocket \<Rightarrow> bool" where
  "first_is_dead i ws = (ws \<noteq> 1)"

definition two_watchers :: registry where
  "two_watchers = [''camp1'' \<mapsto> [1, 2]]"

definition sample_world :: world where
  "sample_world =
     \<lparr>access_token = ''expired-token'',
      cached_user_urn = Some ''urn:li:person:test123'',
      LINKEDIN_ACCESS_TOKEN = ''expired-token'',
      LINKEDIN_REFRESH_TOKEN = ''refresh-1'',
      LINKEDIN_CLIENT_ID = ''client-1'',
      active_connections = sample_registry,
      emitted = [], wire = [], posts = [], userinfo_log = [], token_calls = 0,
      refresh_log = [], sleeps = [], stored = [], searches = 0, llm_calls = []\<rparr>"

text \<open>An answer list read as a call-by-call oracle; past its end the transport fails.\<close>

definition script :: "reply list \<Rightarrow> nat \<Rightarrow> reply" where
  "script rs n = (if n < length rs then rs ! n else HTTPError)"

definition all_alive :: "nat \<Rightarrow> nat \<Rightarrow> WebSocket \<Rightarrow> bool" where
  "all_alive n i ws = True"

definition userinfo_test123 :: "nat \<Rightarrow> userinfo_reply" where
  "userinfo_test123 n = UserInfo 200 (Sub ''test123'')"

definition token_fresh :: "nat \<Rightarrow> token_reply" where
  "token_fresh n = Token 200 (Tokens ''fresh-token'' None)"

definition token_denied :: "nat \<Rightarrow> token_reply" where
  "token_denied n = Token 400 TokenMissing"

definition token_without_access :: "nat \<Rightarrow> token_reply" where
  "token_without_access n = Token 200 TokenMissing"

definition nobody_arrives :: "nat \<Rightarrow> registry_op list" where
  "nobody_arrives n = []"

definition nobody_meanwhile :: "nat \<Rightarrow> registry_op list list" where
  "nobody_meanwhile n = []"

definition store_fine :: "nat \<Rightarrow> exception option" where
  "store_fine n = None"

definition search_nothing :: "nat \<Rightarrow> exception + search_hit list" where
  "search_nothing n = Inr []"

definition llm_fine :: "nat \<Rightarrow> exception + string" where
  "llm_fine n = Inr ''A brief.''"

definition llm_down :: "nat \<Rightarrow> exception + string" where
  "llm_down n = Inl (Failure ''overloaded'')"

definition parse_plain :: "string \<Rightarrow> exception + (string option \<times> string list option)" where
  "parse_plain t = Inl (JSONDecodeError ''Expecting value: line 1 column 1 (char 0)'')"

definition sample_env :: "reply list \<Rightarrow> (nat \<Rightarrow> token_reply) \<Rightarrow> env" where
  "sample_env rs tokens =
     \<lparr>send_text = all_alive, arrivals = nobody_arrives, meanwhile = nobody_meanwhile,
      post_reply = script rs, userinfo_reply = userinfo_test123,
      token_reply = tokens, store_reply = store_fine, search_reply = search_nothing,
      llm_reply = llm_fine, parse_reply = parse_plain, uuid4 = ''0123456789abcdef''\<rparr>"

definition sample_piece :: ContentPiece where
  "sample_piece =
     \<lparr>platform = LINKEDIN, content = ''This is a test LinkedIn post about AI trends.'',
      hashtags = [''AI'', ''LinkedIn''], scheduled_time = None, published = False\<rparr>"

definition long_piece :: ContentPiece where
  "long_piece =
     \<lparr>platform = LINKEDIN, content = replicate 3500 (CHR ''A''),
      hashtags = [''AI''], scheduled_time = None, published = False\<rparr>"

definition sample_request :: "bool \<Rightarrow> CampaignRequest" where
  "sample_request auto =
     \<lparr>request_topic = ''AI trends'', platforms = [LINKEDIN], tone = ''professional'',
      target_audience = ''tech professionals'', auto_publish = auto\<rparr>"

definition llm_down_env :: env where
  "llm_down_env = (sample_env [Response 201] token_fresh)\<lparr>llm_reply := llm_down\<rparr>"

text \<open>
  Two dashboards watch \<open>camp1\<close>. From the third broadcast on the connection of socket 1
  is gone: the send to it raises, and its endpoint, woken by the same loss, runs
  \<open>disconnect\<close> while the broadcast awaits the send to socket 2.
\<close>

definition first_lost_later :: "nat \<Rightarrow> nat \<Rightarrow> WebSocket \<Rightarrow> bool" where
  "first_lost_later n i ws = (n < 2 \<or> ws \<noteq> 1)"

definition endpoint_of_first :: "nat \<Rightarrow> registry_op list list" where
  "endpoint_of_first n = (if n = 2 then [[], [Disconnects 1 ''camp1'']] else [])"

definition racing_env :: env where
  "racing_env = llm_down_env\<lparr>send_text := first_lost_later, meanwhile := endpoint_of_first\<rparr>"

definition watched_world :: world where
  "watched_world = sample_world\<lparr>active_connections := two_watchers\<rparr>"

section \<open>Observations\<close>

text \<open>What a call added to the logs, given the world before and after it.\<close>

definition new_posts :: "world \<Rightarrow> world \<Rightarrow> (post_request \<times> reply) list" where
  "new_posts w w' = drop (length (posts w)) (posts w')"

definition new_sleeps :: "world \<Rightarrow> world \<Rightarrow> nat list" where
  "new_sleeps w w' = drop (length (sleeps w)) (sleeps w')"

definition new_refreshes :: "world \<Rightarrow> world \<Rightarrow> (exception + bool) list" where
  "new_refreshes w w' = drop (length (refresh_log w)) (refresh_log w')"

text \<open>
  The registrations a broadcast leaves for a campaign: one occurrence removed, by
  \<open>list.remove\<close>, for each entry of \<open>dead\<close>.
\<close>

definition kept_sockets :: "(nat \<Rightarrow> WebSocket \<Rightarrow> bool) \<Rightarrow> WebSocket list \<Rightarrow> WebSocket list" where
  "kept_sockets send_ok conns = fold remove1 (snd (send_all send_ok 0 conns)) conns"

text \<open>
  The bodies the code reads can be read: no status 200 of the userinfo endpoint with a
  body that is not JSON, none of the token endpoint with such a body or without an
  access token.
\<close>

definition readable :: "env \<Rightarrow> bool" where
  "readable env =
     ((\<forall>n m. userinfo_reply env n \<noteq> UserInfo 200 (NotJSON m))
      \<and> (\<forall>n m. token_reply env n \<noteq> Token 200 (TokenNotJSON m))
      \<and> (\<forall>n. token_reply env n \<noteq> Token 200 TokenMissing))"

text \<open>No other task touches the registry while a broadcast is suspended in a send.\<close>

definition undisturbed :: "env \<Rightarrow> bool" where
  "undisturbed env = (\<forall>n. meanwhile env n = [])"

text \<open>
  A piece after its pass of \<open>PublisherAgent.run\<close>, given the requests the pass sent:
  flagged when auto-publishing and the last request was answered 200 or 201.
\<close>

definition piece_after :: "bool \<Rightarrow> ContentPiece \<Rightarrow> (post_request \<times> reply) list \<Rightarrow> ContentPiece" where
  "piece_after auto piece seg =
     (if auto \<and> seg \<noteq> []
         \<and> (snd (last seg) = Response 200 \<or> snd (last seg) = Response 201)
      then piece\<lparr>published := True\<rparr> else piece)"

section \<open>The connection manager: broadcast\<close>

lemma send_all_mset:
  "mset (fst (send_all send_ok i conns)) + mset (snd (send_all send_ok i conns)) = mset conns"
  by (induction conns arbitrary: i) (auto simp: split_beta)

lemma send_all_sets:
  "set (fst (send_all send_ok i conns)) \<subseteq> set conns"
  "set (snd (send_all send_ok i conns)) \<subseteq> set conns"
  by (induction conns arbitrary: i) (auto simp: split_beta)

lemma send_all_all_sent:
  "snd (send_all send_ok i conns) = [] \<Longrightarrow> fst (send_all send_ok i conns) = conns"
  by (induction conns arbitrary: i) (auto simp: split_beta split: if_splits)

lemma fold_remove1_mset:
  "mset dead \<subseteq># mset cur \<Longrightarrow> mset (fold remove1 dead cur) = mset cur - mset dead"
proof (induction dead arbitrary: cur)
  case Nil
  then show ?case by simp
next
  case (Cons d ds)
  have "mset ds \<subseteq># mset (remove1 d cur)"
    using Cons.prems by (simp add: insert_subset_eq_iff)
  from Cons.IH [OF this] show ?case by (simp add: diff_diff_add)
qed

lemma remove1_distinct_filter:
  "distinct xs \<Longrightarrow> remove1 d xs = filter (\<lambda>x. x \<noteq> d) xs"
proof (induction xs)
  case Nil
  then show ?case by simp
next
  case (Cons a xs)
  show ?case
  proof (cases "a = d")
    case True
    then have "d \<notin> set xs" using Cons.prems by simp
    then have "filter (\<lambda>x. x \<noteq> d) xs = xs" by (auto simp: filter_id_conv)
    then show ?thesis using True by simp
  next
    case False
    then show ?thesis using Cons by simp
  qed
qed

lemma fold_remove1_distinct:
  "distinct xs \<Longrightarrow> fold remove1 ds xs = filter (\<lambda>x. x \<notin> set ds) xs"
proof (induction ds arbitrary: xs)
  case Nil
  then show ?case by simp
next
  case (Cons d ds)
  have r: "remove1 d xs = filter (\<lambda>x. x \<noteq> d) xs"
    using Cons.prems by (rule remove1_distinct_filter)
  have "distinct (remove1 d xs)" using Cons.prems by simp
  from Cons.IH [OF this] show ?case by (auto simp: r intro: filter_cong)
qed

lemma send_all_distinct:
  "distinct conns \<Longrightarrow>
     filter (\<lambda>x. x \<notin> set (snd (send_all send_ok i conns))) conns = fst (send_all send_ok i conns)"
proof (induction conns arbitrary: i)
  case Nil
  then show ?case by simp
next
  case (Cons ws rest)
  let ?sent = "fst (send_all send_ok (Suc i) rest)"
  let ?dead = "snd (send_all send_ok (Suc i) rest)"
  have ih: "filter (\<lambda>x. x \<notin> set ?dead) rest = ?sent" using Cons by simp
  have fresh: "ws \<notin> set rest" "ws \<notin> set ?dead"
    using Cons.prems send_all_sets(2) [of send_ok "Suc i" rest] by auto
  have "filter (\<lambda>x. x \<noteq> ws \<and> x \<notin> set ?dead) rest = filter (\<lambda>x. x \<notin> set ?dead) rest"
    using fresh(1) by (intro filter_cong) auto
  then show ?case using ih fresh by (simp add: split_beta)
qed

lemma disconnect_dead_folds:
  "reg cid = Some cur \<Longrightarrow> mset dead \<subseteq># mset cur \<Longrightarrow> dead \<noteq> [] \<Longrightarrow>
   disconnect_dead dead cid reg =
     (Inr (), if fold remove1 dead cur = [] then reg(cid := None)
              else reg(cid \<mapsto> fold remove1 dead cur))"
proof (induction dead arbitrary: cur reg)
  case Nil
  then show ?case by simp
next
  case (Cons d ds)
  let ?rest = "remove1 d cur"
  have d_in: "d \<in> set cur" using Cons.prems(2) by (auto dest: mset_subset_eqD)
  have sub: "mset ds \<subseteq># mset ?rest"
    using Cons.prems(2) by (simp add: insert_subset_eq_iff)
  show ?case
  proof (cases "?rest = []")
    case True
    then have "ds = []" using sub by simp
    moreover have "disconnect d cid reg = Inr (reg(cid := None))"
      using Cons.prems(1) d_in True by (simp add: disconnect_def)
    ultimately show ?thesis using True by (simp add: fun_upd_def)
  next
    case False
    have step: "disconnect d cid reg = Inr (reg(cid \<mapsto> ?rest))"
      using Cons.prems(1) d_in False by (simp add: disconnect_def)
    show ?thesis
    proof (cases "ds = []")
      case True
      then show ?thesis using step False by (simp add: fun_upd_def)
    next
      case nonempty: False
      have "disconnect_dead ds cid (reg(cid \<mapsto> ?rest)) =
              (Inr (), if fold remove1 ds ?rest = [] then (reg(cid \<mapsto> ?rest))(cid := None)
                       else (reg(cid \<mapsto> ?rest))(cid \<mapsto> fold remove1 ds ?rest))"
      proof (rule Cons.IH)
        show "(reg(cid \<mapsto> ?rest)) cid = Some ?rest" by simp
        show "mset ds \<subseteq># mset ?rest" by (rule sub)
        show "ds \<noteq> []" by (rule nonempty)
      qed
      then show ?thesis using step by simp
    qed
  qed
qed

lemma send_loop_undisturbed:
  "reg cid = Some conns \<Longrightarrow>
     send_loop send_ok cid [] 0 True reg =
       (fst (send_all send_ok 0 conns), snd (send_all send_ok 0 conns), reg)"
  by (simp add: iterated_def)

lemma broadcast_event_eq:
  "broadcast_event send_ok [] event reg =
     (Inr (),
      (case reg (event_campaign_id event) of
         None \<Rightarrow> reg
       | Some conns \<Rightarrow>
           if snd (send_all send_ok 0 conns) = [] then reg
           else if kept_sockets send_ok conns = [] then reg(event_campaign_id event := None)
           else reg(event_campaign_id event \<mapsto> kept_sockets send_ok conns)),
      (case reg (event_campaign_id event) of
         None \<Rightarrow> []
       | Some conns \<Rightarrow> map (\<lambda>ws. (ws, event)) (fst (send_all send_ok 0 conns))))"
proof (cases "reg (event_campaign_id event)")
  case None
  then show ?thesis by (simp add: broadcast_event_def)
next
  case (Some conns)
  let ?dead = "snd (send_all send_ok 0 conns)"
  show ?thesis
  proof (cases "?dead = []")
    case True
    then show ?thesis
      using Some send_loop_undisturbed [of reg "event_campaign_id event" conns send_ok]
      by (simp add: broadcast_event_def)
  next
    case False
    have "mset ?dead \<subseteq># mset conns"
      using send_all_mset [of send_ok 0 conns] by (metis mset_subset_eq_add_right)
    from disconnect_dead_folds [of reg "event_campaign_id event" conns ?dead] Some this False
    have "disconnect_dead ?dead (event_campaign_id event) reg =
            (Inr (), if fold remove1 ?dead conns = [] then reg(event_campaign_id event := None)
                     else reg(event_campaign_id event \<mapsto> fold remove1 ?dead conns))"
      by blast
    then show ?thesis
      using Some False send_loop_undisturbed [of reg "event_campaign_id event" conns send_ok]
      by (simp add: broadcast_event_def kept_sockets_def)
  qed
qed

lemma kept_sockets_mset:
  "mset (kept_sockets send_ok conns) = mset (fst (send_all send_ok 0 conns))"
proof -
  have "mset (snd (send_all send_ok 0 conns)) \<subseteq># mset conns"
    using send_all_mset [of send_ok 0 conns] by (metis mset_subset_eq_add_right)
  then have "mset (kept_sockets send_ok conns) = mset conns - mset (snd (send_all send_ok 0 conns))"
    unfolding kept_sockets_def by (rule fold_remove1_mset)
  then show ?thesis using send_all_mset [of send_ok 0 conns]
    by (metis add_diff_cancel_right')
qed

lemma kept_sockets_distinct:
  "distinct conns \<Longrightarrow> kept_sockets send_ok conns = fst (send_all send_ok 0 conns)"
  by (simp add: kept_sockets_def fold_remove1_distinct send_all_distinct)


lemma send_all_enumerate:
  "send_all send_ok i conns =
     (map snd (filter (\<lambda>(j, ws). send_ok j ws) (enumerate i conns)),
      map snd (filter (\<lambda>(j, ws). \<not> send_ok j ws) (enumerate i conns)))"
  by (induction conns arbitrary: i) simp_all

lemma send_all_disjoint:
  assumes "distinct conns"
  shows "set (fst (send_all send_ok i conns)) \<inter> set (snd (send_all send_ok i conns)) = {}"
proof -
  have "set (filter (\<lambda>x. x \<notin> set (snd (send_all send_ok i conns))) conns)
          \<inter> set (snd (send_all send_ok i conns)) = {}"
    by auto
  then show ?thesis using send_all_distinct [OF assms, of send_ok i] by simp
qed

text \<open>
  A broadcast during which no other task touches the registry returns normally. With no
  entry for the event's campaign it changes nothing and delivers nothing. Otherwise the
  payload is delivered, in order, to exactly the sockets whose send returns; every send
  that raised removes one registration of its socket, so that the registrations left
  for the campaign are those whose send returned (the entry being deleted when none is
  left). The entries of the other campaigns are untouched.
\<close>

lemma broadcast_event_undisturbed:
  "fst (broadcast_event send_ok [] event reg) = Inr ()
   \<and> (reg (event_campaign_id event) = None \<longrightarrow>
         broadcast_event send_ok [] event reg = (Inr (), reg, []))
   \<and> (\<forall>cid. cid \<noteq> event_campaign_id event \<longrightarrow>
         fst (snd (broadcast_event send_ok [] event reg)) cid = reg cid)
   \<and> (\<forall>conns. reg (event_campaign_id event) = Some conns \<longrightarrow>
         snd (snd (broadcast_event send_ok [] event reg)) =
           map (\<lambda>ws. (ws, event))
             (map snd (filter (\<lambda>(i, ws). send_ok i ws) (enumerate 0 conns)))
         \<and> fst (send_all send_ok 0 conns) =
             map snd (filter (\<lambda>(i, ws). send_ok i ws) (enumerate 0 conns))
         \<and> snd (send_all send_ok 0 conns) =
             map snd (filter (\<lambda>(i, ws). \<not> send_ok i ws) (enumerate 0 conns))
         \<and> (snd (send_all send_ok 0 conns) = [] \<longrightarrow>
               fst (snd (broadcast_event send_ok [] event reg)) = reg)
         \<and> (snd (send_all send_ok 0 conns) \<noteq> [] \<longrightarrow>
               fst (snd (broadcast_event send_ok [] event reg)) (event_campaign_id event) =
                 (if kept_sockets send_ok conns = [] then None
                  else Some (kept_sockets send_ok conns)))
         \<and> mset (kept_sockets send_ok conns) = mset (fst (send_all send_ok 0 conns))
         \<and> (distinct conns \<longrightarrow>
               kept_sockets send_ok conns = fst (send_all send_ok 0 conns)
               \<and> set (kept_sockets send_ok conns) \<inter> set (snd (send_all send_ok 0 conns)) = {}))"
proof -
  let ?cid = "event_campaign_id event"
  let ?out = "broadcast_event send_ok [] event reg"
  have c1: "fst ?out = Inr ()" by (simp add: broadcast_event_eq)
  have c2: "reg ?cid = None \<longrightarrow> ?out = (Inr (), reg, [])"
    by (simp add: broadcast_event_eq)
  have c3: "\<forall>cid. cid \<noteq> ?cid \<longrightarrow> fst (snd ?out) cid = reg cid"
    by (simp add: broadcast_event_eq split: option.splits)
  have c4: "\<forall>conns. reg ?cid = Some conns \<longrightarrow>
         snd (snd ?out) =
           map (\<lambda>ws. (ws, event))
             (map snd (filter (\<lambda>(i, ws). send_ok i ws) (enumerate 0 conns)))
         \<and> fst (send_all send_ok 0 conns) =
             map snd (filter (\<lambda>(i, ws). send_ok i ws) (enumerate 0 conns))
         \<and> snd (send_all send_ok 0 conns) =
             map snd (filter (\<lambda>(i, ws). \<not> send_ok i ws) (enumerate 0 conns))
         \<and> (snd (send_all send_ok 0 conns) = [] \<longrightarrow> fst (snd ?out) = reg)
         \<and> (snd (send_all send_ok 0 conns) \<noteq> [] \<longrightarrow>
               fst (snd ?out) ?cid =
                 (if kept_sockets send_ok conns = [] then None
                  else Some (kept_sockets send_ok conns)))
         \<and> mset (kept_sockets send_ok conns) = mset (fst (send_all send_ok 0 conns))
         \<and> (distinct conns \<longrightarrow>
               kept_sockets send_ok conns = fst (send_all send_ok 0 conns)
               \<and> set (kept_sockets send_ok conns) \<inter> set (snd (send_all send_ok 0 conns)) = {})"
  proof (intro allI impI)
    fix conns assume some: "reg ?cid = Some conns"
    have sent: "fst (send_all send_ok 0 conns) =
             map snd (filter (\<lambda>(i, ws). send_ok i ws) (enumerate 0 conns))"
      by (simp add: send_all_enumerate)
    have dead: "snd (send_all send_ok 0 conns) =
             map snd (filter (\<lambda>(i, ws). \<not> send_ok i ws) (enumerate 0 conns))"
      by (simp add: send_all_enumerate)
    have "snd (snd ?out) = map (\<lambda>ws. (ws, event)) (fst (send_all send_ok 0 conns))"
      using some by (simp add: broadcast_event_eq)
    then have deliveries: "snd (snd ?out) =
           map (\<lambda>ws. (ws, event))
             (map snd (filter (\<lambda>(i, ws). send_ok i ws) (enumerate 0 conns)))"
      by (simp only: sent)
    have quiet: "snd (send_all send_ok 0 conns) = [] \<longrightarrow> fst (snd ?out) = reg"
      using some by (simp add: broadcast_event_eq)
    have evict: "snd (send_all send_ok 0 conns) \<noteq> [] \<longrightarrow>
               fst (snd ?out) ?cid =
                 (if kept_sockets send_ok conns = [] then None
                  else Some (kept_sockets send_ok conns))"
      using some by (simp add: broadcast_event_eq)
    have left: "mset (kept_sockets send_ok conns) = mset (fst (send_all send_ok 0 conns))"
      by (rule kept_sockets_mset)
    have once: "distinct conns \<longrightarrow>
               kept_sockets send_ok conns = fst (send_all send_ok 0 conns)
               \<and> set (kept_sockets send_ok conns) \<inter> set (snd (send_all send_ok 0 conns)) = {}"
      using kept_sockets_distinct [of conns send_ok] send_all_disjoint [of conns send_ok 0]
      by simp
    from deliveries sent dead quiet evict left once
    show "snd (snd ?out) =
           map (\<lambda>ws. (ws, event))
             (map snd (filter (\<lambda>(i, ws). send_ok i ws) (enumerate 0 conns)))
         \<and> fst (send_all send_ok 0 conns) =
             map snd (filter (\<lambda>(i, ws). send_ok i ws) (enumerate 0 conns))
         \<and> snd (send_all send_ok 0 conns) =
             map snd (filter (\<lambda>(i, ws). \<not> send_ok i ws) (enumerate 0 conns))
         \<and> (snd (send_all send_ok 0 conns) = [] \<longrightarrow> fst (snd ?out) = reg)
         \<and> (snd (send_all send_ok 0 conns) \<noteq> [] \<longrightarrow>
               fst (snd ?out) ?cid =
                 (if kept_sockets send_ok conns = [] then None
                  else Some (kept_sockets send_ok conns)))
         \<and> mset (kept_sockets send_ok conns) = mset (fst (send_all send_ok 0 conns))
         \<and> (distinct conns \<longrightarrow>
               kept_sockets send_ok conns = fst (send_all send_ok 0 conns)
               \<and> set (kept_sockets send_ok conns) \<inter> set (snd (send_all send_ok 0 conns)) = {})"
      by (intro conjI)
  qed
  from c1 c2 c3 c4 show ?thesis by (intro conjI)
qed

text \<open>
  Claim C8 fails on the code. Two dashboards watch \<open>camp1\<close> and the connection of
  socket 1 is lost, which both the broadcast and the endpoint of socket 1 get to know.
  First run: the send to socket 1 raises and is caught, and while the broadcast awaits
  the send to socket 2 the endpoint of socket 1 runs its \<open>disconnect\<close>; the second
  loop then calls \<open>disconnect\<close> for a socket that is no longer in the list, and the
  \<open>ValueError\<close> of \<open>list.remove\<close> leaves \<open>broadcast_event\<close> into its caller.
  Second run: the endpoint runs its \<open>disconnect\<close> while the broadcast awaits the send
  to socket 1; the list the loop walks has shrunk to socket 2 at index 0, the loop is
  at index 1 and ends, so socket 2, whose connection is sound, never gets the event, and
  the second loop raises as before.
\<close>

theorem broadcast_event_raises_into_caller:
  "broadcast_event first_is_dead [[], [Disconnects 1 ''camp1'']] sample_event two_watchers
     = (Inl (ValueError ''list.remove(x): x not in list''), [''camp1'' \<mapsto> [2]],
        [(2, sample_event)])
   \<and> broadcast_event first_is_dead [[Disconnects 1 ''camp1'']] sample_event two_watchers
     = (Inl (ValueError ''list.remove(x): x not in list''), [''camp1'' \<mapsto> [2]], [])"
  by (simp add: broadcast_event_def iterated_def disconnect_def two_watchers_def
        first_is_dead_def sample_event_def)

section \<open>The publisher: one pass and the loop of attempts\<close>

lemma get_user_urn_frame [simp]:
  "posts (snd (get_user_urn env w)) = posts w"
  "sleeps (snd (get_user_urn env w)) = sleeps w"
  "refresh_log (snd (get_user_urn env w)) = refresh_log w"
  "stored (snd (get_user_urn env w)) = stored w"
  "access_token (snd (get_user_urn env w)) = access_token w"
  by (simp_all add: get_user_urn_def Let_def
        split: userinfo_reply.splits userinfo_body.splits)

lemma refresh_exchange_frame [simp]:
  "posts (snd (refresh_exchange env w)) = posts w"
  "sleeps (snd (refresh_exchange env w)) = sleeps w"
  "refresh_log (snd (refresh_exchange env w)) = refresh_log w"
  "stored (snd (refresh_exchange env w)) = stored w"
  by (simp_all add: refresh_exchange_def Let_def
        split: token_reply.splits token_body.splits)

lemma refresh_token_frame [simp]:
  "posts (snd (refresh_token env w)) = posts w"
  "sleeps (snd (refresh_token env w)) = sleeps w"
  "stored (snd (refresh_token env w)) = stored w"
  "refresh_log (snd (refresh_token env w)) = refresh_log w @ [fst (refresh_token env w)]"
  "fst (refresh_token env w) = fst (refresh_exchange env w)"
  by (simp_all add: refresh_token_def split_beta)

lemma backoff_frame [simp]:
  "posts (backoff attempt m w) = posts w"
  "refresh_log (backoff attempt m w) = refresh_log w"
  "stored (backoff attempt m w) = stored w"
  "sleeps (backoff attempt m w) = sleeps w @ (if attempt < m then [2 ^ attempt] else [])"
  by (simp_all add: backoff_def)

text \<open>One pass: what is posted.\<close>

lemma attempt_body_posts:
  "posts (snd (attempt_body env m text attempt tr a h w)) =
     posts w @ [(\<lparr>author = a, commentary = text, authorization = h\<rparr>,
                 post_reply env (length (posts w)))]"
  by (simp add: attempt_body_def Let_def split_beta
        split: reply.splits sum.splits)

lemma attempt_body_stored:
  "stored (snd (attempt_body env m text attempt tr a h w)) = stored w"
  by (simp add: attempt_body_def Let_def split_beta
        split: reply.splits sum.splits)

lemma refresh_token_eqD:
  "refresh_token env w = (r, w') \<Longrightarrow>
     posts w' = posts w \<and> sleeps w' = sleeps w \<and> stored w' = stored w
     \<and> refresh_log w' = refresh_log w @ [r]"
  using refresh_token_frame [of env w] by simp

lemma get_user_urn_eqD:
  "get_user_urn env w = (r, w') \<Longrightarrow>
     posts w' = posts w \<and> sleeps w' = sleeps w \<and> stored w' = stored w
     \<and> refresh_log w' = refresh_log w \<and> access_token w' = access_token w"
  using get_user_urn_frame [of env w] by simp

lemma attempt_body_Return_True:
  assumes "attempt_body env m text att tr a h w = (Inr (Return True), w1)"
  shows "post_reply env (length (posts w)) = Response 200 \<or> post_reply env (length (posts w)) = Response 201"
    and "refresh_log w1 = refresh_log w" and "sleeps w1 = sleeps w"
  using assms
  by (auto simp: attempt_body_def Let_def split_beta
        split: reply.splits sum.splits if_splits prod.splits)

lemma attempt_body_Return_False:
  assumes "attempt_body env m text att tr a h w = (Inr (Return False), w1)"
  shows "sleeps w1 = sleeps w"
    and "(post_reply env (length (posts w)) = Response 403 \<and> refresh_log w1 = refresh_log w)
         \<or> (post_reply env (length (posts w)) = Response 401 \<and> \<not> tr
             \<and> refresh_log w1 = refresh_log w @ [Inr False])"
  using assms
  by (auto simp: attempt_body_def Let_def 
        split: reply.splits sum.splits if_splits prod.splits
        dest!: refresh_token_eqD get_user_urn_eqD)

lemma attempt_body_Next:
  assumes "attempt_body env m text att tr a h w = (Inr (Next tr' a' h'), w1)"
  shows "post_reply env (length (posts w)) \<noteq> Response 200"
    and "post_reply env (length (posts w)) \<noteq> Response 201"
    and "post_reply env (length (posts w)) \<noteq> Response 403"
    and "(tr' = tr \<and> refresh_log w1 = refresh_log w
            \<and> sleeps w1 = sleeps w @ (if att < m then [2 ^ att] else [])
            \<and> (post_reply env (length (posts w)) = Response 401 \<longrightarrow> tr))
         \<or> (post_reply env (length (posts w)) = Response 401 \<and> \<not> tr \<and> tr'
             \<and> refresh_log w1 = refresh_log w @ [Inr True] \<and> sleeps w1 = sleeps w)"
  using assms
  by (auto simp: attempt_body_def Let_def 
        split: reply.splits sum.splits if_splits prod.splits
        dest!: refresh_token_eqD get_user_urn_eqD)

lemma attempt_body_Inl:
  assumes "attempt_body env m text att tr a h w = (Inl e, w1)"
  shows "post_reply env (length (posts w)) = Response 401" and "\<not> tr"
    and "sleeps w1 = sleeps w"
    and "refresh_log w1 = refresh_log w @ [Inl e] \<or> refresh_log w1 = refresh_log w @ [Inr True]"
  using assms
  by (auto simp: attempt_body_def Let_def 
        split: reply.splits sum.splits if_splits prod.splits
        dest!: refresh_token_eqD get_user_urn_eqD)

lemma attempt_body_posts_eq:
  assumes "attempt_body env m text att tr a h w = (c, w1)"
  shows "posts w1 = posts w @ [(\<lparr>author = a, commentary = text, authorization = h\<rparr>,
                 post_reply env (length (posts w)))]"
  using attempt_body_posts [of env m "text" att tr a h w] assms by simp

lemma publish_attempts_Cons_cases:
  assumes "publish_attempts env m text (att # rest) tr a h w = (r, w')"
  obtains
    (raise) e where "attempt_body env m text att tr a h w = (Inl e, w')" "r = Inl e"
  | (ret) b where "attempt_body env m text att tr a h w = (Inr (Return b), w')" "r = Inr b"
  | (nxt) tr' a' h' w1 where "attempt_body env m text att tr a h w = (Inr (Next tr' a' h'), w1)"
      "publish_attempts env m text rest tr' a' h' w1 = (r, w')"
  using assms
  by (auto split: prod.splits sum.splits loop_control.splits)

lemma publish_attempts_posts:
  assumes "publish_attempts env m body atts tr a h w = (r, w')"
  shows "\<exists>seg. posts w' = posts w @ seg \<and> length seg \<le> length atts
      \<and> (\<forall>p\<in>set seg. commentary (fst p) = body)
      \<and> (\<forall>i<length seg. snd (seg ! i) = post_reply env (length (posts w) + i))
      \<and> (\<forall>p\<in>set (butlast seg).
            snd p \<noteq> Response 200 \<and> snd p \<noteq> Response 201 \<and> snd p \<noteq> Response 403)
      \<and> (r = Inr True \<longleftrightarrow>
            seg \<noteq> [] \<and> (snd (last seg) = Response 200 \<or> snd (last seg) = Response 201))
      \<and> (seg \<noteq> [] \<and> snd (last seg) = Response 403 \<longrightarrow> r = Inr False)"
  using assms
proof (induction atts arbitrary: tr a h w)
  case Nil
  then show ?case by auto
next
  case (Cons att rest)
  let ?x = "(\<lparr>author = a, commentary = body, authorization = h\<rparr>,
             post_reply env (length (posts w)))"
  from Cons.prems show ?case
  proof (cases rule: publish_attempts_Cons_cases)
    case (raise e)
    have "posts w' = posts w @ [?x]" using attempt_body_posts_eq [OF raise(1)] .
    moreover have "snd ?x = Response 401" using attempt_body_Inl(1) [OF raise(1)] by simp
    ultimately show ?thesis using raise(2)
      by (intro exI [of _ "[?x]"]) simp
  next
    case (ret b)
    have p: "posts w' = posts w @ [?x]" using attempt_body_posts_eq [OF ret(1)] .
    show ?thesis
    proof (cases b)
      case True
      then have "snd ?x = Response 200 \<or> snd ?x = Response 201"
        using attempt_body_Return_True(1) [of env m body att tr a h w w'] ret(1) by simp
      then show ?thesis using p ret(2) True
        by (intro exI [of _ "[?x]"]) auto
    next
      case False
      then have "snd ?x = Response 403 \<or> snd ?x = Response 401"
        using attempt_body_Return_False(2) [of env m body att tr a h w w'] ret(1) by auto
      then show ?thesis using p ret(2) False
        by (intro exI [of _ "[?x]"]) auto
    qed
  next
    case (nxt tr' a' h' w1)
    have p: "posts w1 = posts w @ [?x]" using attempt_body_posts_eq [OF nxt(1)] .
    have x: "snd ?x \<noteq> Response 200" "snd ?x \<noteq> Response 201" "snd ?x \<noteq> Response 403"
      using attempt_body_Next(1-3) [OF nxt(1)] by simp_all
    from Cons.IH [OF nxt(2)] obtain seg where seg:
      "posts w' = posts w1 @ seg" "length seg \<le> length rest"
      "\<forall>p\<in>set seg. commentary (fst p) = body"
      "\<forall>i<length seg. snd (seg ! i) = post_reply env (length (posts w1) + i)"
      "\<forall>p\<in>set (butlast seg).
            snd p \<noteq> Response 200 \<and> snd p \<noteq> Response 201 \<and> snd p \<noteq> Response 403"
      "r = Inr True \<longleftrightarrow>
            seg \<noteq> [] \<and> (snd (last seg) = Response 200 \<or> snd (last seg) = Response 201)"
      "seg \<noteq> [] \<and> snd (last seg) = Response 403 \<longrightarrow> r = Inr False"
      by blast
    have idx: "\<forall>i<length (?x # seg). snd ((?x # seg) ! i) = post_reply env (length (posts w) + i)"
    proof (intro allI impI)
      fix i assume "i < length (?x # seg)"
      then show "snd ((?x # seg) ! i) = post_reply env (length (posts w) + i)"
        using seg(4) p by (cases i) simp_all
    qed
    have "posts w' = posts w @ (?x # seg)" using p seg(1) by simp
    moreover have "length (?x # seg) \<le> length (att # rest)" using seg(2) by simp
    moreover have "\<forall>p\<in>set (?x # seg). commentary (fst p) = body" using seg(3) by simp
    moreover have "\<forall>p\<in>set (butlast (?x # seg)).
            snd p \<noteq> Response 200 \<and> snd p \<noteq> Response 201 \<and> snd p \<noteq> Response 403"
      using seg(5) x by simp
    moreover have "r = Inr True \<longleftrightarrow> ?x # seg \<noteq> [] \<and>
        (snd (last (?x # seg)) = Response 200 \<or> snd (last (?x # seg)) = Response 201)"
      using seg(6) x by simp
    moreover have "?x # seg \<noteq> [] \<and> snd (last (?x # seg)) = Response 403 \<longrightarrow> r = Inr False"
      using seg(7) x by simp
    ultimately show ?thesis using idx by blast
  qed
qed

lemma publish_attempts_sleeps:
  assumes "publish_attempts env m body atts tr a h w = (r, w')"
  shows "\<exists>ss. sleeps w' = sleeps w @ ss
      \<and> subseq ss (map (\<lambda>k. 2 ^ k) (filter (\<lambda>k. k < m) atts))"
  using assms
proof (induction atts arbitrary: tr a h w)
  case Nil
  then show ?case by simp
next
  case (Cons att rest)
  from Cons.prems show ?case
  proof (cases rule: publish_attempts_Cons_cases)
    case (raise e)
    then show ?thesis using attempt_body_Inl(3) [OF raise(1)] by simp
  next
    case (ret b)
    then have "sleeps w' = sleeps w"
      using attempt_body_Return_True(3) [of env m body att tr a h w w']
        attempt_body_Return_False(1) [of env m body att tr a h w w'] by (cases b) simp_all
    then show ?thesis by simp
  next
    case (nxt tr' a' h' w1)
    from Cons.IH [OF nxt(2)] obtain ss where ss:
      "sleeps w' = sleeps w1 @ ss" "subseq ss (map (\<lambda>k. 2 ^ k) (filter (\<lambda>k. k < m) rest))"
      by blast
    from attempt_body_Next(4) [OF nxt(1)]
    have "sleeps w1 = sleeps w @ (if att < m then [2 ^ att] else []) \<or> sleeps w1 = sleeps w"
      by blast
    then show ?thesis
    proof
      assume "sleeps w1 = sleeps w @ (if att < m then [2 ^ att] else [])"
      then have "sleeps w' = sleeps w @ ((if att < m then [2 ^ att] else []) @ ss)"
        using ss(1) by simp
      moreover have "subseq ((if att < m then [2 ^ att] else []) @ ss)
          (map (\<lambda>k. 2 ^ k) (filter (\<lambda>k. k < m) (att # rest)))"
        using ss(2) by simp
      ultimately show ?thesis by blast
    next
      assume "sleeps w1 = sleeps w"
      then have "sleeps w' = sleeps w @ ss" using ss(1) by simp
      moreover have "subseq ss (map (\<lambda>k. 2 ^ k) (filter (\<lambda>k. k < m) (att # rest)))"
        using ss(2) by (auto intro: subseq_Cons')
      ultimately show ?thesis by blast
    qed
  qed
qed

lemma publish_attempts_refresh:
  assumes "publish_attempts env m body atts tr a h w = (r, w')"
  shows "\<exists>rs. refresh_log w' = refresh_log w @ rs \<and> length rs \<le> 1 \<and> (tr \<longrightarrow> rs = [])
      \<and> (rs = [Inr False] \<longrightarrow>
            r = Inr False \<and> posts w' \<noteq> [] \<and> snd (last (posts w')) = Response 401)
      \<and> (\<forall>e. rs = [Inl e] \<longrightarrow>
            r = Inl e \<and> posts w' \<noteq> [] \<and> snd (last (posts w')) = Response 401)
      \<and> (rs \<noteq> [] \<longrightarrow> (\<exists>p\<in>set (drop (length (posts w)) (posts w')). snd p = Response 401))"
  using assms
proof (induction atts arbitrary: tr a h w)
  case Nil
  then show ?case by auto
next
  case (Cons att rest)
  let ?x = "(\<lparr>author = a, commentary = body, authorization = h\<rparr>,
             post_reply env (length (posts w)))"
  from Cons.prems show ?case
  proof (cases rule: publish_attempts_Cons_cases)
    case (raise e)
    have p: "posts w' = posts w @ [?x]" using attempt_body_posts_eq [OF raise(1)] .
    have x: "snd ?x = Response 401" using attempt_body_Inl(1) [OF raise(1)] by simp
    have "\<not> tr" using attempt_body_Inl(2) [OF raise(1)] .
    moreover have "refresh_log w' = refresh_log w @ [Inl e]
        \<or> refresh_log w' = refresh_log w @ [Inr True]"
      using attempt_body_Inl(4) [OF raise(1)] .
    ultimately show ?thesis using p x raise(2) by auto
  next
    case (ret b)
    have p: "posts w' = posts w @ [?x]" using attempt_body_posts_eq [OF ret(1)] .
    show ?thesis
    proof (cases b)
      case True
      then have "refresh_log w' = refresh_log w"
        using attempt_body_Return_True(2) [of env m body att tr a h w w'] ret(1) by simp
      then show ?thesis by simp
    next
      case False
      then have "(snd ?x = Response 403 \<and> refresh_log w' = refresh_log w)
         \<or> (snd ?x = Response 401 \<and> \<not> tr \<and> refresh_log w' = refresh_log w @ [Inr False])"
        using attempt_body_Return_False(2) [of env m body att tr a h w w'] ret(1) by simp
      then show ?thesis using p ret(2) False by auto
    qed
  next
    case (nxt tr' a' h' w1)
    have p: "posts w1 = posts w @ [?x]" using attempt_body_posts_eq [OF nxt(1)] .
    from publish_attempts_posts [OF nxt(2)] obtain seg where seg: "posts w' = posts w1 @ seg"
      by blast
    have sub: "set (drop (length (posts w1)) (posts w')) \<subseteq> set (drop (length (posts w)) (posts w'))"
      using p seg by auto
    have xin: "?x \<in> set (drop (length (posts w)) (posts w'))" using p seg by simp
    from Cons.IH [OF nxt(2)] obtain rs where rs:
      "refresh_log w' = refresh_log w1 @ rs" "length rs \<le> 1" "tr' \<longrightarrow> rs = []"
      "rs = [Inr False] \<longrightarrow>
            r = Inr False \<and> posts w' \<noteq> [] \<and> snd (last (posts w')) = Response 401"
      "\<forall>e. rs = [Inl e] \<longrightarrow>
            r = Inl e \<and> posts w' \<noteq> [] \<and> snd (last (posts w')) = Response 401"
      "rs \<noteq> [] \<longrightarrow> (\<exists>p\<in>set (drop (length (posts w1)) (posts w')). snd p = Response 401)"
      by blast
    from attempt_body_Next(4) [OF nxt(1)]
    consider (plain) "tr' = tr" "refresh_log w1 = refresh_log w"
      | (refreshed) "snd ?x = Response 401" "\<not> tr" "tr'" "refresh_log w1 = refresh_log w @ [Inr True]"
      by auto
    then show ?thesis
    proof cases
      case plain
      have "refresh_log w' = refresh_log w @ rs" using rs(1) plain(2) by simp
      moreover have "tr \<longrightarrow> rs = []" using rs(3) plain(1) by simp
      moreover have "rs \<noteq> [] \<longrightarrow> (\<exists>p\<in>set (drop (length (posts w)) (posts w')). snd p = Response 401)"
        using rs(6) sub by blast
      ultimately show ?thesis using rs(2,4,5) by blast
    next
      case refreshed
      then have "rs = []" using rs(3) by simp
      then have "refresh_log w' = refresh_log w @ [Inr True]" using rs(1) refreshed(4) by simp
      moreover have "\<exists>p\<in>set (drop (length (posts w)) (posts w')). snd p = Response 401"
        using xin refreshed(1) by blast
      ultimately show ?thesis using refreshed(2)
        by (intro exI [of _ "[Inr True]"]) simp
    qed
  qed
qed

lemma get_user_urn_readable:
  "readable env \<Longrightarrow> fst (get_user_urn env w) \<noteq> Inl e"
  by (auto simp: readable_def get_user_urn_def Let_def
        split: userinfo_reply.splits userinfo_body.splits)

lemma refresh_token_readable:
  "readable env \<Longrightarrow> fst (refresh_token env w) \<noteq> Inl e"
  by (auto simp: readable_def refresh_exchange_def Let_def
        split: token_reply.splits token_body.splits)

lemma attempt_body_readable:
  assumes "readable env"
  shows "fst (attempt_body env m body att tr a h w) \<noteq> Inl e"
proof
  assume "fst (attempt_body env m body att tr a h w) = Inl e"
  then show False
    using get_user_urn_readable [OF assms] refresh_token_readable [OF assms]
    by (auto simp: attempt_body_def Let_def split_beta
          split: reply.splits sum.splits if_splits)
qed

lemma publish_attempts_readable:
  assumes "readable env"
  shows "fst (publish_attempts env m body atts tr a h w) \<noteq> Inl e"
proof (induction atts arbitrary: tr a h w)
  case Nil
  then show ?case by simp
next
  case (Cons att rest)
  obtain r w' where rw: "publish_attempts env m body (att # rest) tr a h w = (r, w')"
    by (cases "publish_attempts env m body (att # rest) tr a h w") 
  from rw show ?case
  proof (cases rule: publish_attempts_Cons_cases)
    case (raise e')
    then show ?thesis using attempt_body_readable [OF assms, of m body att tr a h w e'] by simp
  next
    case (ret b)
    then show ?thesis using rw by simp
  next
    case (nxt tr' a' h' w1)
    then show ?thesis using Cons.IH [of tr' a' h' w1] rw by simp
  qed
qed

lemma publish_linkedin_readable:
  assumes "readable env"
  shows "fst (publish_linkedin env piece m w) \<noteq> Inl e"
  using get_user_urn_readable [OF assms, of w] publish_attempts_readable [OF assms]
  by (auto simp: publish_linkedin_def split_beta split: sum.splits option.splits)

lemma filter_attempts: "filter (\<lambda>k. k < m) [1..<Suc m] = [1..<m]"
  by (cases m) (simp_all add: filter_empty_conv)

lemma publish_linkedin_cases:
  assumes "publish_linkedin env piece m w = (r, w')"
  obtains
    (skipped) "posts w' = posts w" "sleeps w' = sleeps w" "refresh_log w' = refresh_log w"
      "r \<noteq> Inr True"
  | (attempts) a w1 where "posts w1 = posts w" "sleeps w1 = sleeps w"
      "refresh_log w1 = refresh_log w"
      "publish_attempts env m (outgoing_text piece) [1..<Suc m] False a
         (''Bearer '' @ access_token w1) w1 = (r, w')"
proof (cases "access_token w = []")
  case True
  then have "r = Inr False" "w' = w" using assms by (simp_all add: publish_linkedin_def)
  then show ?thesis using skipped by simp
next
  case False
  obtain u w1 where g: "get_user_urn env w = (u, w1)" by (cases "get_user_urn env w")
  note fr = get_user_urn_eqD [OF g]
  show ?thesis
  proof (cases "\<exists>a. u = Inr (Some a) \<and> a \<noteq> []")
    case True
    then obtain a where "u = Inr (Some a)" "a \<noteq> []" by blast
    then have "publish_attempts env m (outgoing_text piece) [1..<Suc m] False a
         (''Bearer '' @ access_token w1) w1 = (r, w')"
      using assms False g by (simp add: publish_linkedin_def)
    then show ?thesis using attempts fr by blast
  next
    case no: False
    have "w' = w1 \<and> r \<noteq> Inr True"
      using assms False g no
      by (auto simp: publish_linkedin_def split: sum.splits option.splits if_splits)
    then show ?thesis using skipped fr by simp
  qed
qed

lemma publish_attempts_early_stop_refresh:
  assumes "publish_attempts env m body atts tr a h w = (Inr False, w')"
    and "length (posts w') < length (posts w) + length atts"
  shows "posts w' \<noteq> [] \<and>
         (snd (last (posts w')) = Response 403
          \<or> (snd (last (posts w')) = Response 401
              \<and> refresh_log w' = refresh_log w @ [Inr False]))"
  using assms
proof (induction atts arbitrary: tr a h w)
  case Nil
  then show ?case by simp
next
  case (Cons att rest)
  let ?x = "(\<lparr>author = a, commentary = body, authorization = h\<rparr>,
             post_reply env (length (posts w)))"
  from Cons.prems(1) show ?case
  proof (cases rule: publish_attempts_Cons_cases)
    case (raise e)
    then show ?thesis by simp
  next
    case (ret b)
    then have b: "b = False" by simp
    have p: "posts w' = posts w @ [?x]" using attempt_body_posts_eq [OF ret(1)] .
    have "(snd ?x = Response 403 \<and> refresh_log w' = refresh_log w)
         \<or> (snd ?x = Response 401 \<and> \<not> tr \<and> refresh_log w' = refresh_log w @ [Inr False])"
      using attempt_body_Return_False(2) [of env m body att tr a h w w'] ret(1) b by simp
    then show ?thesis using p by auto
  next
    case (nxt tr' a' h' w1)
    have p: "posts w1 = posts w @ [?x]" using attempt_body_posts_eq [OF nxt(1)] .
    have "length (posts w') < length (posts w1) + length rest"
      using Cons.prems(2) p by simp
    from Cons.IH [OF nxt(2) this]
    have ih: "posts w' \<noteq> []" "snd (last (posts w')) = Response 403
          \<or> (snd (last (posts w')) = Response 401
              \<and> refresh_log w' = refresh_log w1 @ [Inr False])" by simp_all
    from publish_attempts_refresh [OF nxt(2)] obtain rs where
      rs: "refresh_log w' = refresh_log w1 @ rs" "tr' \<longrightarrow> rs = []" by blast
    from attempt_body_Next(4) [OF nxt(1)]
    have "refresh_log w1 = refresh_log w \<or> tr'" by blast
    then show ?thesis
    proof
      assume "refresh_log w1 = refresh_log w"
      then show ?thesis using ih by simp
    next
      assume tr'
      then have "refresh_log w' = refresh_log w1" using rs by simp
      then show ?thesis using ih by auto
    qed
  qed
qed

lemma publish_attempts_401_refreshes:
  assumes "publish_attempts env m body atts tr a h w = (r, w')"
    and "\<not> tr"
    and "\<exists>p\<in>set (drop (length (posts w)) (posts w')). snd p = Response 401"
  shows "refresh_log w' \<noteq> refresh_log w"
  using assms
proof (induction atts arbitrary: tr a h w)
  case Nil
  then show ?case by simp
next
  case (Cons att rest)
  let ?x = "(\<lparr>author = a, commentary = body, authorization = h\<rparr>,
             post_reply env (length (posts w)))"
  from Cons.prems(1) show ?case
  proof (cases rule: publish_attempts_Cons_cases)
    case (raise e)
    then show ?thesis using attempt_body_Inl(4) [OF raise(1)] by auto
  next
    case (ret b)
    have p: "posts w' = posts w @ [?x]" using attempt_body_posts_eq [OF ret(1)] .
    then have x: "snd ?x = Response 401" using Cons.prems(3) by simp
    show ?thesis
    proof (cases b)
      case True
      then show ?thesis
        using attempt_body_Return_True(1) [of env m body att tr a h w w'] ret(1) x by simp
    next
      case False
      then show ?thesis
        using attempt_body_Return_False(2) [of env m body att tr a h w w'] ret(1) x by auto
    qed
  next
    case (nxt tr' a' h' w1)
    have p: "posts w1 = posts w @ [?x]" using attempt_body_posts_eq [OF nxt(1)] .
    from publish_attempts_posts [OF nxt(2)] obtain seg where seg: "posts w' = posts w1 @ seg"
      by blast
    from publish_attempts_refresh [OF nxt(2)] obtain rs where
      rs: "refresh_log w' = refresh_log w1 @ rs" by blast
    from attempt_body_Next(4) [OF nxt(1)]
    consider (plain) "tr' = tr" "refresh_log w1 = refresh_log w" "snd ?x \<noteq> Response 401"
      | (refreshed) "refresh_log w1 = refresh_log w @ [Inr True]"
      using Cons.prems(2) by auto
    then show ?thesis
    proof cases
      case plain
      have "drop (length (posts w)) (posts w') = ?x # seg" using p seg by simp
      then have "\<exists>p\<in>set seg. snd p = Response 401" using Cons.prems(3) plain(3) by auto
      then have "\<exists>p\<in>set (drop (length (posts w1)) (posts w')). snd p = Response 401"
        using seg by simp
      from Cons.IH [OF nxt(2) _ this] plain(1) Cons.prems(2)
      show ?thesis using plain(2) by simp
    next
      case refreshed
      then show ?thesis using rs by simp
    qed
  qed
qed

lemma publish_linkedin_summary:
  assumes "publish_linkedin env piece m w = (r, w')"
  shows "posts w' = posts w @ new_posts w w'
    \<and> length (new_posts w w') \<le> m
    \<and> (\<forall>p\<in>set (new_posts w w'). commentary (fst p) = outgoing_text piece)
    \<and> (\<forall>i<length (new_posts w w').
           snd (new_posts w w' ! i) = post_reply env (length (posts w) + i))
    \<and> (\<forall>p\<in>set (butlast (new_posts w w')).
           snd p \<noteq> Response 200 \<and> snd p \<noteq> Response 201 \<and> snd p \<noteq> Response 403)
    \<and> (r = Inr True \<longleftrightarrow> new_posts w w' \<noteq> []
           \<and> (snd (last (new_posts w w')) = Response 200
              \<or> snd (last (new_posts w w')) = Response 201))
    \<and> (new_posts w w' \<noteq> [] \<and> snd (last (new_posts w w')) = Response 403 \<longrightarrow> r = Inr False)
    \<and> sleeps w' = sleeps w @ new_sleeps w w'
    \<and> subseq (new_sleeps w w') (map (\<lambda>k. 2 ^ k) [1..<m])
    \<and> refresh_log w' = refresh_log w @ new_refreshes w w'
    \<and> length (new_refreshes w w') \<le> 1
    \<and> (new_refreshes w w' = [Inr False] \<longrightarrow>
           r = Inr False \<and> new_posts w w' \<noteq> []
           \<and> snd (last (new_posts w w')) = Response 401)
    \<and> (new_refreshes w w' \<noteq> [] \<longleftrightarrow> (\<exists>p\<in>set (new_posts w w'). snd p = Response 401))
    \<and> (\<forall>e. new_refreshes w w' = [Inl e] \<longrightarrow> r = Inl e)
    \<and> (r = Inr False \<and> new_posts w w' \<noteq> [] \<and> length (new_posts w w') < m \<longrightarrow>
           snd (last (new_posts w w')) = Response 403
           \<or> (snd (last (new_posts w w')) = Response 401 \<and> new_refreshes w w' = [Inr False]))"
  using assms
proof (cases rule: publish_linkedin_cases)
  case skipped
  then show ?thesis by (simp add: new_posts_def new_sleeps_def new_refreshes_def)
next
  case (attempts a w1)
  note loop = attempts(4)
  from publish_attempts_posts [OF loop] obtain seg where seg:
    "posts w' = posts w1 @ seg" "length seg \<le> length [1..<Suc m]"
    "\<forall>p\<in>set seg. commentary (fst p) = outgoing_text piece"
    "\<forall>i<length seg. snd (seg ! i) = post_reply env (length (posts w1) + i)"
    "\<forall>p\<in>set (butlast seg).
          snd p \<noteq> Response 200 \<and> snd p \<noteq> Response 201 \<and> snd p \<noteq> Response 403"
    "r = Inr True \<longleftrightarrow>
          seg \<noteq> [] \<and> (snd (last seg) = Response 200 \<or> snd (last seg) = Response 201)"
    "seg \<noteq> [] \<and> snd (last seg) = Response 403 \<longrightarrow> r = Inr False"
    by blast
  from publish_attempts_sleeps [OF loop] obtain ss where ss:
    "sleeps w' = sleeps w1 @ ss"
    "subseq ss (map (\<lambda>k. 2 ^ k) (filter (\<lambda>k. k < m) [1..<Suc m]))"
    by blast
  from publish_attempts_refresh [OF loop] obtain rs where rs:
    "refresh_log w' = refresh_log w1 @ rs" "length rs \<le> 1"
    "rs = [Inr False] \<longrightarrow>
          r = Inr False \<and> posts w' \<noteq> [] \<and> snd (last (posts w')) = Response 401"
    "\<forall>e. rs = [Inl e] \<longrightarrow>
          r = Inl e \<and> posts w' \<noteq> [] \<and> snd (last (posts w')) = Response 401"
    "rs \<noteq> [] \<longrightarrow> (\<exists>p\<in>set (drop (length (posts w1)) (posts w')). snd p = Response 401)"
    by blast
  have np: "new_posts w w' = seg" using seg(1) attempts(1) by (simp add: new_posts_def)
  have ns: "new_sleeps w w' = ss" using ss(1) attempts(2) by (simp add: new_sleeps_def)
  have nr: "new_refreshes w w' = rs" using rs(1) attempts(3) by (simp add: new_refreshes_def)
  have dr: "drop (length (posts w1)) (posts w') = seg" using seg(1) by simp
  have lastp: "seg \<noteq> [] \<Longrightarrow> last (posts w') = last seg" using seg(1) by simp
  have c1: "posts w' = posts w @ new_posts w w'" using seg(1) attempts(1) np by simp
  have c2: "length (new_posts w w') \<le> m" using seg(2) np by (simp del: upt_Suc)
  have c3: "\<forall>p\<in>set (new_posts w w'). commentary (fst p) = outgoing_text piece"
    using seg(3) np by simp
  have c4: "\<forall>i<length (new_posts w w').
           snd (new_posts w w' ! i) = post_reply env (length (posts w) + i)"
    using seg(4) np attempts(1) by simp
  have c5: "\<forall>p\<in>set (butlast (new_posts w w')).
           snd p \<noteq> Response 200 \<and> snd p \<noteq> Response 201 \<and> snd p \<noteq> Response 403"
    using seg(5) np by simp
  have c6: "r = Inr True \<longleftrightarrow> new_posts w w' \<noteq> []
           \<and> (snd (last (new_posts w w')) = Response 200
              \<or> snd (last (new_posts w w')) = Response 201)"
    using seg(6) np by simp
  have c7: "new_posts w w' \<noteq> [] \<and> snd (last (new_posts w w')) = Response 403 \<longrightarrow> r = Inr False"
    using seg(7) np by simp
  have c8: "sleeps w' = sleeps w @ new_sleeps w w'" using ss(1) attempts(2) ns by simp
  have c9: "subseq (new_sleeps w w') (map (\<lambda>k. 2 ^ k) [1..<m])"
    using ss(2) ns by (simp only: filter_attempts)
  have c10: "refresh_log w' = refresh_log w @ new_refreshes w w'"
    using rs(1) attempts(3) nr by simp
  have c11: "length (new_refreshes w w') \<le> 1" using rs(2) nr by simp
  have nonempty: "rs \<noteq> [] \<Longrightarrow> seg \<noteq> []" using rs(5) dr by auto
  have c12: "new_refreshes w w' = [Inr False] \<longrightarrow>
           r = Inr False \<and> new_posts w w' \<noteq> []
           \<and> snd (last (new_posts w w')) = Response 401"
  proof
    assume "new_refreshes w w' = [Inr False]"
    then have f: "rs = [Inr False]" using nr by simp
    then have "seg \<noteq> []" using nonempty by simp
    then show "r = Inr False \<and> new_posts w w' \<noteq> []
           \<and> snd (last (new_posts w w')) = Response 401"
      using rs(3) f lastp np by simp
  qed
  have c13: "new_refreshes w w' \<noteq> [] \<longleftrightarrow> (\<exists>p\<in>set (new_posts w w'). snd p = Response 401)"
  proof
    assume "new_refreshes w w' \<noteq> []"
    then show "\<exists>p\<in>set (new_posts w w'). snd p = Response 401"
      using rs(5) nr dr np by simp
  next
    assume "\<exists>p\<in>set (new_posts w w'). snd p = Response 401"
    then have "\<exists>p\<in>set (drop (length (posts w1)) (posts w')). snd p = Response 401"
      using np dr by simp
    from publish_attempts_401_refreshes [OF loop _ this]
    have "refresh_log w' \<noteq> refresh_log w1" by simp
    then show "new_refreshes w w' \<noteq> []" using rs(1) nr by auto
  qed
  have c14: "\<forall>e. new_refreshes w w' = [Inl e] \<longrightarrow> r = Inl e" using rs(4) nr by simp
  have c15: "r = Inr False \<and> new_posts w w' \<noteq> [] \<and> length (new_posts w w') < m \<longrightarrow>
           snd (last (new_posts w w')) = Response 403
           \<or> (snd (last (new_posts w w')) = Response 401 \<and> new_refreshes w w' = [Inr False])"
  proof
    assume a: "r = Inr False \<and> new_posts w w' \<noteq> [] \<and> length (new_posts w w') < m"
    then have l: "publish_attempts env m (outgoing_text piece) [1..<Suc m] False a
         (''Bearer '' @ access_token w1) w1 = (Inr False, w')" using loop by simp
    have "length (posts w') < length (posts w1) + length [1..<Suc m]"
      using a np seg(1) by (simp del: upt_Suc)
    from publish_attempts_early_stop_refresh [OF l this]
    have "snd (last (posts w')) = Response 403
          \<or> (snd (last (posts w')) = Response 401
              \<and> refresh_log w' = refresh_log w1 @ [Inr False])" by simp
    moreover have "seg \<noteq> []" using a np by simp
    ultimately show "snd (last (new_posts w w')) = Response 403
           \<or> (snd (last (new_posts w w')) = Response 401 \<and> new_refreshes w w' = [Inr False])"
      using lastp np nr rs(1) by auto
  qed
  from c1 c2 c3 c4 c5 c6 c7 c8 c9 c10 c11 c12 c13 c14 c15 show ?thesis
    by (intro conjI)
qed

lemma three_attempts: "[Suc 0..<4] = [Suc 0, 2, 3]"
  by code_simp

lemmas publish_eval = publish_linkedin_def get_user_urn_def refresh_token_def
  refresh_exchange_def attempt_body_def backoff_def sample_env_def sample_world_def
  script_def userinfo_test123_def token_fresh_def token_denied_def Let_def three_attempts
  new_posts_def new_sleeps_def new_refreshes_def

section \<open>The publisher: claims about one publish call\<close>

text \<open>
  Claim C2 as stated fails: after a 401 answered by a successful refresh, the claim leaves
  the full three attempts for the retry, so that the answers 401, 500, 500, 201 would end
  in a success on the fourth request. The code's \<open>continue\<close> moves on to the next value
  of \<open>attempt\<close>: it sends three requests, the 401 one included, never sees the 201 and
  returns false.
\<close>

theorem refresh_consumes_attempt_counterexample:
  "fst (publish_linkedin
          (sample_env [Response 401, Response 500, Response 500, Response 201] token_fresh)
          sample_piece 3 sample_world) = Inr False
   \<and> map snd (posts (snd (publish_linkedin
          (sample_env [Response 401, Response 500, Response 500, Response 201] token_fresh)
          sample_piece 3 sample_world))) = [Response 401, Response 500, Response 500]
   \<and> refresh_log (snd (publish_linkedin
          (sample_env [Response 401, Response 500, Response 500, Response 201] token_fresh)
          sample_piece 3 sample_world)) = [Inr True]
   \<and> post_reply (sample_env [Response 401, Response 500, Response 500, Response 201] token_fresh) 3
        = Response 201"
  by (simp add: publish_eval del: upt_Suc)

text \<open>
  Claim C2, amended. A publish call performs at most one credential refresh; it performs
  one only when one of its requests is answered 401, and does perform one when the
  request of an attempt before the last one is answered 401. If the refresh returns
  false, the call returns false at once, the request answered 401 being its last. If the
  refresh returns true after a 401 on an attempt before the last one and the call
  returns, the next attempt is sent; the request answered 401 has used its attempt
  number, the call sending at most \<open>max_retries\<close> requests in all, that one included.
\<close>

theorem publish_refreshes_at_most_once:
  assumes "publish_linkedin env piece max_retries w = (r, w')"
  shows "refresh_log w' = refresh_log w @ new_refreshes w w'
    \<and> length (new_refreshes w w') \<le> 1
    \<and> (new_refreshes w w' \<noteq> [] \<longrightarrow> (\<exists>p\<in>set (new_posts w w'). snd p = Response 401))
    \<and> (\<forall>i. i < length (new_posts w w') \<and> snd (new_posts w w' ! i) = Response 401
            \<and> Suc i < max_retries \<longrightarrow>
          new_refreshes w w' \<noteq> [])
    \<and> (new_refreshes w w' = [Inr False] \<longrightarrow>
          r = Inr False \<and> new_posts w w' \<noteq> []
          \<and> snd (last (new_posts w w')) = Response 401)
    \<and> (\<forall>i b. i < length (new_posts w w') \<and> snd (new_posts w w' ! i) = Response 401
              \<and> Suc i < max_retries \<and> new_refreshes w w' = [Inr True] \<and> r = Inr b \<longrightarrow>
          Suc i < length (new_posts w w'))
    \<and> length (new_posts w w') \<le> max_retries"
proof -
  note s = publish_linkedin_summary [OF assms]
  let ?seg = "new_posts w w'"
  have c1: "refresh_log w' = refresh_log w @ new_refreshes w w'" using s by blast
  have c2: "length (new_refreshes w w') \<le> 1" using s by blast
  have iff: "new_refreshes w w' \<noteq> [] \<longleftrightarrow> (\<exists>p\<in>set ?seg. snd p = Response 401)"
    using s by blast
  have c3: "new_refreshes w w' \<noteq> [] \<longrightarrow> (\<exists>p\<in>set ?seg. snd p = Response 401)"
    using iff by blast
  have c3': "\<forall>i. i < length ?seg \<and> snd (?seg ! i) = Response 401 \<and> Suc i < max_retries \<longrightarrow>
          new_refreshes w w' \<noteq> []"
  proof (intro allI impI)
    fix i
    assume a: "i < length ?seg \<and> snd (?seg ! i) = Response 401 \<and> Suc i < max_retries"
    then have "?seg ! i \<in> set ?seg" by simp
    then have "\<exists>p\<in>set ?seg. snd p = Response 401" using a by blast
    then show "new_refreshes w w' \<noteq> []" using iff by blast
  qed
  have c4: "new_refreshes w w' = [Inr False] \<longrightarrow>
          r = Inr False \<and> ?seg \<noteq> [] \<and> snd (last ?seg) = Response 401"
    using s by blast
  have success: "r = Inr True \<longleftrightarrow> ?seg \<noteq> []
           \<and> (snd (last ?seg) = Response 200 \<or> snd (last ?seg) = Response 201)"
    using s by blast
  have early: "r = Inr False \<and> ?seg \<noteq> [] \<and> length ?seg < max_retries \<longrightarrow>
           snd (last ?seg) = Response 403
           \<or> (snd (last ?seg) = Response 401 \<and> new_refreshes w w' = [Inr False])"
    using s by blast
  have c5: "\<forall>i b. i < length ?seg \<and> snd (?seg ! i) = Response 401
              \<and> Suc i < max_retries \<and> new_refreshes w w' = [Inr True] \<and> r = Inr b \<longrightarrow>
          Suc i < length ?seg"
  proof (intro allI impI)
    fix i b
    assume a: "i < length ?seg \<and> snd (?seg ! i) = Response 401
              \<and> Suc i < max_retries \<and> new_refreshes w w' = [Inr True] \<and> r = Inr b"
    show "Suc i < length ?seg"
    proof (rule ccontr)
      assume "\<not> Suc i < length ?seg"
      then have len: "length ?seg = Suc i" using a by simp
      then have ne: "?seg \<noteq> []" by auto
      have "last ?seg = ?seg ! i" using len ne by (simp add: last_conv_nth)
      then have l: "snd (last ?seg) = Response 401" using a by simp
      show False
      proof (cases b)
        case True
        then show False using a success l by simp
      next
        case False
        then have "r = Inr False \<and> ?seg \<noteq> [] \<and> length ?seg < max_retries"
          using a ne len by simp
        then show False using early l a by simp
      qed
    qed
  qed
  have c6: "length ?seg \<le> max_retries" using s by blast
  from c1 c2 c3 c3' c4 c5 c6 show ?thesis by (intro conjI)
qed

theorem publish_refreshes_at_most_once_witness:
  "fst (publish_linkedin (sample_env [Response 401, Response 201] token_fresh)
          sample_piece 3 sample_world) = Inr True
   \<and> new_refreshes sample_world
        (snd (publish_linkedin (sample_env [Response 401, Response 201] token_fresh)
                sample_piece 3 sample_world)) = [Inr True]
   \<and> map snd (new_posts sample_world
        (snd (publish_linkedin (sample_env [Response 401, Response 201] token_fresh)
                sample_piece 3 sample_world))) = [Response 401, Response 201]
   \<and> fst (publish_linkedin (sample_env [Response 401, Response 201] token_denied)
          sample_piece 3 sample_world) = Inr False
   \<and> new_refreshes sample_world
        (snd (publish_linkedin (sample_env [Response 401, Response 201] token_denied)
                sample_piece 3 sample_world)) = [Inr False]
   \<and> length (new_posts sample_world
        (snd (publish_linkedin (sample_env [Response 401, Response 201] token_denied)
                sample_piece 3 sample_world))) = 1"
  using publish_refreshes_at_most_once
    [of "sample_env [Response 401, Response 201] token_fresh" sample_piece 3 sample_world
        "fst (publish_linkedin (sample_env [Response 401, Response 201] token_fresh)
                sample_piece 3 sample_world)"
        "snd (publish_linkedin (sample_env [Response 401, Response 201] token_fresh)
                sample_piece 3 sample_world)"]
    publish_refreshes_at_most_once
    [of "sample_env [Response 401, Response 201] token_denied" sample_piece 3 sample_world
        "fst (publish_linkedin (sample_env [Response 401, Response 201] token_denied)
                sample_piece 3 sample_world)"
        "snd (publish_linkedin (sample_env [Response 401, Response 201] token_denied)
                sample_piece 3 sample_world)"]
  by (simp add: publish_eval del: upt_Suc)

text \<open>
  Claim C3 as stated fails: the code takes the statuses 200 and 201 for a success, not
  every 2xx. Answered 204 three times, the call retries twice and returns false.
\<close>

theorem status_204_counterexample:
  "fst (publish_linkedin
          (sample_env [Response 204, Response 204, Response 204] token_fresh)
          sample_piece 3 sample_world) = Inr False
   \<and> map snd (posts (snd (publish_linkedin
          (sample_env [Response 204, Response 204, Response 204] token_fresh)
          sample_piece 3 sample_world))) = [Response 204, Response 204, Response 204]"
  by (simp add: publish_eval del: upt_Suc)

text \<open>
  Claim C3, amended. The requests of a publish call get the platform's answers in order.
  The call returns true exactly when its last request is answered 200 or 201; an answer
  200, 201 or 403 is never followed by another request; after a 403 the call returns
  false, so that a first answer 403 leaves exactly one request. Every other answer (a
  transport error, another status, 2xx ones other than 200 and 201 included) is followed
  by a retry while attempts remain: a call that returns false before its
  \<open>max_retries\<close>-th request ended on a 403, or on a 401 whose refresh returned false.
\<close>

theorem publish_reply_classification:
  assumes "publish_linkedin env piece max_retries w = (r, w')"
  shows "posts w' = posts w @ new_posts w w'
    \<and> (\<forall>i<length (new_posts w w').
          snd (new_posts w w' ! i) = post_reply env (length (posts w) + i))
    \<and> (r = Inr True \<longleftrightarrow> new_posts w w' \<noteq> []
          \<and> (snd (last (new_posts w w')) = Response 200
             \<or> snd (last (new_posts w w')) = Response 201))
    \<and> (\<forall>p\<in>set (butlast (new_posts w w')).
          snd p \<noteq> Response 200 \<and> snd p \<noteq> Response 201 \<and> snd p \<noteq> Response 403)
    \<and> (new_posts w w' \<noteq> [] \<and> snd (last (new_posts w w')) = Response 403 \<longrightarrow> r = Inr False)
    \<and> (new_posts w w' \<noteq> [] \<and> post_reply env (length (posts w)) = Response 403 \<longrightarrow>
          r = Inr False \<and> length (new_posts w w') = 1)
    \<and> (r = Inr False \<and> new_posts w w' \<noteq> [] \<and> length (new_posts w w') < max_retries \<longrightarrow>
          snd (last (new_posts w w')) = Response 403
          \<or> (snd (last (new_posts w w')) = Response 401 \<and> new_refreshes w w' = [Inr False]))"
proof -
  note s = publish_linkedin_summary [OF assms]
  let ?seg = "new_posts w w'"
  have first: "?seg \<noteq> [] \<and> post_reply env (length (posts w)) = Response 403 \<longrightarrow>
          r = Inr False \<and> length ?seg = 1"
  proof
    assume a: "?seg \<noteq> [] \<and> post_reply env (length (posts w)) = Response 403"
    then have h: "snd (hd ?seg) = Response 403"
      using s by (cases ?seg) force+
    have "butlast ?seg = []"
    proof (rule ccontr)
      assume "butlast ?seg \<noteq> []"
      then have "hd ?seg \<in> set (butlast ?seg)"
        by (cases ?seg) (auto split: if_splits)
      then show False using s h by blast
    qed
    then have one: "length ?seg = 1" using a by (cases ?seg) (auto split: if_splits)
    then have "last ?seg = hd ?seg" by (cases ?seg) auto
    then show "r = Inr False \<and> length ?seg = 1" using s h a one by simp
  qed
  show ?thesis using s first by blast
qed

theorem publish_reply_classification_witness:
  "fst (publish_linkedin (sample_env [HTTPError, Response 403, Response 201] token_fresh)
          sample_piece 3 sample_world) = Inr False
   \<and> map snd (new_posts sample_world
        (snd (publish_linkedin (sample_env [HTTPError, Response 403, Response 201] token_fresh)
                sample_piece 3 sample_world))) = [HTTPError, Response 403]"
  using publish_reply_classification
    [of "sample_env [HTTPError, Response 403, Response 201] token_fresh" sample_piece 3
        sample_world
        "fst (publish_linkedin (sample_env [HTTPError, Response 403, Response 201] token_fresh)
                sample_piece 3 sample_world)"
        "snd (publish_linkedin (sample_env [HTTPError, Response 403, Response 201] token_fresh)
                sample_piece 3 sample_world)"]
  by (simp add: publish_eval del: upt_Suc)

text \<open>
  Claim C4 fails on the code. The platform answers 500, 500 and, to the third and last
  attempt, 401; the token endpoint answers the refresh with a status 200 whose body has
  no \<open>access_token\<close>. The call has sent its three requests, with delays of 2 and 4
  seconds between them, and does not return false: \<open>_refresh_token\<close> reads
  \<open>data["access_token"]\<close> unguarded, and the \<open>KeyError\<close> leaves \<open>_publish_linkedin\<close>.
  When the same exchange is refused with a status 400, the call returns false.
\<close>

theorem exhausted_attempts_raise_KeyError:
  "fst (publish_linkedin
          (sample_env [Response 500, Response 500, Response 401] token_without_access)
          sample_piece 3 sample_world)
     = Inl (KeyError ''access_token'')
   \<and> map snd (posts (snd (publish_linkedin
          (sample_env [Response 500, Response 500, Response 401] token_without_access)
          sample_piece 3 sample_world)))
     = [Response 500, Response 500, Response 401]
   \<and> sleeps (snd (publish_linkedin
          (sample_env [Response 500, Response 500, Response 401] token_without_access)
          sample_piece 3 sample_world))
     = [2, 4]
   \<and> fst (publish_linkedin
          (sample_env [Response 500, Response 500, Response 401] token_denied)
          sample_piece 3 sample_world)
     = Inr False"
  by (simp add: publish_eval token_without_access_def del: upt_Suc)

text \<open>
  Claim C5. Every request of a publish call carries the piece's body with the hashtag
  trailer appended (when there are hashtags) and the whole then cut to 3000 characters:
  the text sent is never longer than 3000, and a body of 3500 characters is sent as its
  first 3000 characters.
\<close>

theorem transmitted_text_truncated:
  assumes "publish_linkedin env piece max_retries w = (r, w')"
  shows "\<forall>p\<in>set (new_posts w w').
      commentary (fst p) =
        take 3000
          (if hashtags piece \<noteq> []
           then content piece @ [CHR 0x0A, CHR 0x0A]
                  @ join '' '' (map (\<lambda>t. ''#'' @ t) (hashtags piece))
           else content piece)
      \<and> length (commentary (fst p)) \<le> 3000
      \<and> (length (content piece) = 3500 \<longrightarrow>
            length (commentary (fst p)) = 3000
            \<and> commentary (fst p) = take 3000 (content piece))"
proof
  fix p assume "p \<in> set (new_posts w w')"
  then have sent: "commentary (fst p) = outgoing_text piece"
    using publish_linkedin_summary [OF assms] by blast
  have text_eq: "outgoing_text piece =
        take 3000
          (if hashtags piece \<noteq> []
           then content piece @ [CHR 0x0A, CHR 0x0A]
                  @ join '' '' (map (\<lambda>t. ''#'' @ t) (hashtags piece))
           else content piece)"
    by (fact outgoing_text_def)
  have short: "length (outgoing_text piece) \<le> 3000"
    by (simp add: outgoing_text_def)
  have long: "length (content piece) = 3500 \<longrightarrow>
        length (outgoing_text piece) = 3000 \<and> outgoing_text piece = take 3000 (content piece)"
    by (simp add: outgoing_text_def)
  show "commentary (fst p) =
        take 3000
          (if hashtags piece \<noteq> []
           then content piece @ [CHR 0x0A, CHR 0x0A]
                  @ join '' '' (map (\<lambda>t. ''#'' @ t) (hashtags piece))
           else content piece)
      \<and> length (commentary (fst p)) \<le> 3000
      \<and> (length (content piece) = 3500 \<longrightarrow>
            length (commentary (fst p)) = 3000
            \<and> commentary (fst p) = take 3000 (content piece))"
    unfolding sent using text_eq short long by blast
qed

theorem transmitted_text_truncated_witness:
  "map (commentary \<circ> fst)
     (new_posts sample_world
        (snd (publish_linkedin (sample_env [Response 201] token_fresh)
                long_piece 3 sample_world))) = [replicate 3000 (CHR ''A'')]
   \<and> length (content long_piece) = 3500"
  using transmitted_text_truncated
    [of "sample_env [Response 201] token_fresh" long_piece 3 sample_world
        "fst (publish_linkedin (sample_env [Response 201] token_fresh)
                long_piece 3 sample_world)"
        "snd (publish_linkedin (sample_env [Response 201] token_fresh)
                long_piece 3 sample_world)"]
  by (simp add: publish_eval outgoing_text_def long_piece_def del: upt_Suc)

section \<open>The publisher: the stage\<close>

lemma ws_broadcast_eq:
  "meanwhile env (length (emitted w)) = [] \<Longrightarrow>
   ws_broadcast env event w =
     (Inr (),
      w\<lparr>active_connections :=
           fst (snd (broadcast_event (send_text env (length (emitted w))) [] event
                       (fold apply_op (arrivals env (length (emitted w)))
                          (active_connections w)))),
         emitted := emitted w @ [event],
         wire := wire w @
           snd (snd (broadcast_event (send_text env (length (emitted w))) [] event
                       (fold apply_op (arrivals env (length (emitted w)))
                          (active_connections w))))\<rparr>)"
proof -
  assume "meanwhile env (length (emitted w)) = []"
  moreover have "fst (broadcast_event (send_text env (length (emitted w))) [] event
               (fold apply_op (arrivals env (length (emitted w))) (active_connections w)))
             = Inr ()"
    by (simp add: broadcast_event_eq)
  ultimately show ?thesis by (simp add: ws_broadcast_def split_beta)
qed

lemma ws_broadcast_frame [simp]:
  "posts (snd (ws_broadcast env event w)) = posts w"
  "sleeps (snd (ws_broadcast env event w)) = sleeps w"
  "refresh_log (snd (ws_broadcast env event w)) = refresh_log w"
  "stored (snd (ws_broadcast env event w)) = stored w"
  "userinfo_log (snd (ws_broadcast env event w)) = userinfo_log w"
  "token_calls (snd (ws_broadcast env event w)) = token_calls w"
  "access_token (snd (ws_broadcast env event w)) = access_token w"
  "cached_user_urn (snd (ws_broadcast env event w)) = cached_user_urn w"
  "llm_calls (snd (ws_broadcast env event w)) = llm_calls w"
  "searches (snd (ws_broadcast env event w)) = searches w"
  "emitted (snd (ws_broadcast env event w)) = emitted w @ [event]"
  by (simp_all add: ws_broadcast_def split_beta)

lemma ws_broadcast_returns [simp]:
  "undisturbed env \<Longrightarrow> fst (ws_broadcast env event w) = Inr ()"
  by (simp add: ws_broadcast_eq undisturbed_def)

lemma store_campaign_results_frame [simp]:
  "posts (snd (store_campaign_results env cid plat body w)) = posts w"
  "sleeps (snd (store_campaign_results env cid plat body w)) = sleeps w"
  "refresh_log (snd (store_campaign_results env cid plat body w)) = refresh_log w"
  "userinfo_log (snd (store_campaign_results env cid plat body w)) = userinfo_log w"
  "token_calls (snd (store_campaign_results env cid plat body w)) = token_calls w"
  "access_token (snd (store_campaign_results env cid plat body w)) = access_token w"
  "cached_user_urn (snd (store_campaign_results env cid plat body w)) = cached_user_urn w"
  "llm_calls (snd (store_campaign_results env cid plat body w)) = llm_calls w"
  "emitted (snd (store_campaign_results env cid plat body w)) = emitted w"
  "stored (snd (store_campaign_results env cid plat body w)) = stored w @ [(cid, plat, body)]"
  "fst (store_campaign_results env cid plat body w) =
     (case store_reply env (length (stored w)) of None \<Rightarrow> Inr () | Some e \<Rightarrow> Inl e)"
  by (simp_all add: store_campaign_results_def split: option.splits)

lemma publish_attempts_stored:
  "stored (snd (publish_attempts env m body atts tr a h w)) = stored w"
proof (induction atts arbitrary: tr a h w)
  case Nil
  then show ?case by simp
next
  case (Cons att rest)
  obtain c w1 where b: "attempt_body env m body att tr a h w = (c, w1)"
    by (cases "attempt_body env m body att tr a h w")
  then have "stored w1 = stored w"
    using attempt_body_stored [of env m body att tr a h w] by simp
  then show ?case using b Cons.IH
    by (simp split: sum.splits loop_control.splits)
qed

lemma publish_linkedin_stored:
  "stored (snd (publish_linkedin env piece m w)) = stored w"
  by (simp add: publish_linkedin_def split_beta publish_attempts_stored
        split: sum.splits option.splits)

lemma publish_or_save_segment:
  assumes "publish_or_save env cid auto piece w = (r, piece', w')"
  shows "\<exists>seg. posts w' = posts w @ seg \<and> length seg \<le> 3
      \<and> (\<forall>p\<in>set seg. commentary (fst p) = outgoing_text piece)
      \<and> (\<not> auto \<longrightarrow> seg = [])
      \<and> piece' = piece_after auto piece seg
      \<and> stored w' = stored w
      \<and> (readable env \<and> undisturbed env \<longrightarrow> r = Inr ())"
proof (cases auto)
  case False
  then have "piece' = piece" "posts w' = posts w" "stored w' = stored w"
    "undisturbed env \<longrightarrow> r = Inr ()"
    using assms by (auto simp: publish_or_save_def split_beta)
  then show ?thesis using False by (simp add: piece_after_def)
next
  case True
  let ?ev = "new_event cid PUBLISHER RUNNING (Some (platform piece))
               ''Publishing to LinkedIn...'' None"
  let ?w1 = "snd (ws_broadcast env ?ev w)"
  show ?thesis
  proof (cases "fst (ws_broadcast env ?ev w)")
    case (Inl e)
    have "publish_or_save env cid auto piece w = (Inl e, piece, ?w1)"
      using True Inl by (simp add: publish_or_save_def split_beta)
    then have "piece' = piece" "w' = ?w1" "r = Inl e"
      using assms by simp_all
    moreover have "\<not> undisturbed env" using Inl by auto
    ultimately show ?thesis by (intro exI [of _ "[]"]) (simp add: piece_after_def)
  next
    case (Inr u)
    obtain s w2 where pub: "publish_linkedin env piece 3 ?w1 = (s, w2)"
      by (cases "publish_linkedin env piece 3 ?w1")
    note sm = publish_linkedin_summary [OF pub]
    have st: "stored w2 = stored w"
      using publish_linkedin_stored [of env piece 3 ?w1] pub by simp
    have rd: "readable env \<Longrightarrow> \<exists>b. s = Inr b"
      using publish_linkedin_readable [of env piece 3 ?w1] pub by (cases s) auto
    have res: "posts w' = posts w2 \<and> stored w' = stored w2
        \<and> piece' = (if s = Inr True then piece\<lparr>published := True\<rparr> else piece)
        \<and> ((\<exists>b. s = Inr b) \<and> undisturbed env \<longrightarrow> r = Inr ())"
      using assms True pub Inr
      by (cases s) (auto simp: publish_or_save_def split_beta split: if_splits)
    let ?seg = "new_posts ?w1 w2"
    have c1: "posts w' = posts w @ ?seg" using res sm by simp
    have c2: "length ?seg \<le> 3" using sm by simp
    have c3: "\<forall>p\<in>set ?seg. commentary (fst p) = outgoing_text piece" using sm by simp
    have c4: "\<not> auto \<longrightarrow> ?seg = []" using True by simp
    have c5: "piece' = piece_after auto piece ?seg"
      using res sm True by (simp add: piece_after_def)
    have c6: "stored w' = stored w" using res st by simp
    have c7: "readable env \<and> undisturbed env \<longrightarrow> r = Inr ()" using res rd by blast
    from c1 c2 c3 c4 c5 c6 c7 show ?thesis by blast
  qed
qed

lemma piece_after_fields [simp]:
  "platform (piece_after auto piece seg) = platform piece"
  "content (piece_after auto piece seg) = content piece"
  "hashtags (piece_after auto piece seg) = hashtags piece"
  "scheduled_time (piece_after auto piece seg) = scheduled_time piece"
  "piece_after auto piece [] = piece"
  "piece_after False piece seg = piece"
  by (simp_all add: piece_after_def)

lemma publisher_piece_segment:
  assumes "publisher_piece env cid auto piece w = (r, piece', w')"
  shows "\<exists>seg. posts w' = posts w @ seg \<and> length seg \<le> 3
      \<and> (\<forall>p\<in>set seg. commentary (fst p) = outgoing_text piece)
      \<and> (\<not> auto \<longrightarrow> seg = [])
      \<and> piece' = piece_after auto piece seg
      \<and> (r = Inr () \<longrightarrow>
            stored w' = stored w @ [(cid, Platform_value (platform piece), content piece)])
      \<and> (readable env \<and> undisturbed env \<and> store_reply env (length (stored w)) = None
            \<longrightarrow> r = Inr ())"
proof -
  obtain r1 p1 w1 where ps: "publish_or_save env cid auto piece w = (r1, p1, w1)"
    by (cases "publish_or_save env cid auto piece w")
  from publish_or_save_segment [OF ps] obtain seg where seg:
    "posts w1 = posts w @ seg" "length seg \<le> 3"
    "\<forall>p\<in>set seg. commentary (fst p) = outgoing_text piece"
    "\<not> auto \<longrightarrow> seg = []" "p1 = piece_after auto piece seg" "stored w1 = stored w"
    "readable env \<and> undisturbed env \<longrightarrow> r1 = Inr ()"
    by blast
  show ?thesis
  proof (cases r1)
    case (Inl e)
    then have "r = Inl e" "piece' = p1" "w' = w1"
      using assms ps by (simp_all add: publisher_piece_def)
    then show ?thesis using seg Inl by auto
  next
    case (Inr u)
    let ?st = "store_campaign_results env cid (Platform_value (platform p1)) (content p1) w1"
    have "publisher_piece env cid auto piece w = (fst ?st, p1, snd ?st)"
      using ps Inr by (simp add: publisher_piece_def split_beta)
    then have "r = fst ?st" "piece' = p1" "w' = snd ?st"
      using assms by simp_all
    then have "posts w' = posts w @ seg" "piece' = piece_after auto piece seg"
      "stored w' = stored w @ [(cid, Platform_value (platform piece), content piece)]"
      "store_reply env (length (stored w)) = None \<longrightarrow> r = Inr ()"
      using seg by simp_all
    then show ?thesis using seg(2,3,4) by (intro exI [of _ seg]) simp
  qed
qed

lemma map2_piece_after_Nil:
  "map2 (piece_after auto) ps (replicate (length ps) []) = ps"
  by (induction ps) simp_all

lemma PublisherAgent_run_segments:
  assumes "PublisherAgent_run env cid pieces auto w = (r, pieces', w')"
  shows "\<exists>segs. length segs = length pieces \<and> posts w' = posts w @ concat segs
      \<and> (\<forall>i<length pieces. length (segs ! i) \<le> 3
            \<and> (\<forall>p\<in>set (segs ! i). commentary (fst p) = outgoing_text (pieces ! i)))
      \<and> (\<not> auto \<longrightarrow> concat segs = [])
      \<and> pieces' = map2 (piece_after auto) pieces segs
      \<and> (r = Inr () \<longrightarrow>
            stored w' = stored w
              @ map (\<lambda>p. (cid, Platform_value (platform p), content p)) pieces)
      \<and> (readable env \<and> undisturbed env \<and> (\<forall>n. store_reply env n = None) \<longrightarrow> r = Inr ())"
  using assms
proof (induction pieces arbitrary: w r pieces' w')
  case Nil
  then show ?case by auto
next
  case (Cons piece rest)
  obtain r1 p1 w1 where one: "publisher_piece env cid auto piece w = (r1, p1, w1)"
    by (cases "publisher_piece env cid auto piece w")
  from publisher_piece_segment [OF one] obtain seg where seg:
    "posts w1 = posts w @ seg" "length seg \<le> 3"
    "\<forall>p\<in>set seg. commentary (fst p) = outgoing_text piece"
    "\<not> auto \<longrightarrow> seg = []" "p1 = piece_after auto piece seg"
    "r1 = Inr () \<longrightarrow>
        stored w1 = stored w @ [(cid, Platform_value (platform piece), content piece)]"
    "readable env \<and> undisturbed env \<and> store_reply env (length (stored w)) = None
       \<longrightarrow> r1 = Inr ()"
    by blast
  show ?case
  proof (cases r1)
    case (Inl e)
    then have res: "r = Inl e" "pieces' = p1 # rest" "w' = w1"
      using Cons.prems one by simp_all
    let ?segs = "seg # replicate (length rest) []"
    have idx: "\<forall>i<length (piece # rest). length (?segs ! i) \<le> 3
            \<and> (\<forall>p\<in>set (?segs ! i). commentary (fst p) = outgoing_text ((piece # rest) ! i))"
    proof (intro allI impI)
      fix i assume "i < length (piece # rest)"
      then show "length (?segs ! i) \<le> 3
            \<and> (\<forall>p\<in>set (?segs ! i). commentary (fst p) = outgoing_text ((piece # rest) ! i))"
        using seg(2,3) by (cases i) simp_all
    qed
    have "length ?segs = length (piece # rest)" by simp
    moreover have "posts w' = posts w @ concat ?segs" using res seg(1) by simp
    moreover have "\<not> auto \<longrightarrow> concat ?segs = []" using seg(4) by simp
    moreover have "pieces' = map2 (piece_after auto) (piece # rest) ?segs"
      using res seg(5) by (simp add: map2_piece_after_Nil)
    moreover have "r \<noteq> Inr ()" using res by simp
    moreover have "readable env \<and> undisturbed env \<and> (\<forall>n. store_reply env n = None) \<longrightarrow> r = Inr ()"
      using seg(7) Inl by auto
    ultimately show ?thesis using idx by blast
  next
    case (Inr u)
    obtain r2 rest' w2 where two: "PublisherAgent_run env cid rest auto w1 = (r2, rest', w2)"
      by (cases "PublisherAgent_run env cid rest auto w1")
    have res: "r = r2" "pieces' = p1 # rest'" "w' = w2"
      using Cons.prems one two Inr by simp_all
    from Cons.IH [OF two] obtain segs where segs:
      "length segs = length rest" "posts w2 = posts w1 @ concat segs"
      "\<forall>i<length rest. length (segs ! i) \<le> 3
            \<and> (\<forall>p\<in>set (segs ! i). commentary (fst p) = outgoing_text (rest ! i))"
      "\<not> auto \<longrightarrow> concat segs = []"
      "rest' = map2 (piece_after auto) rest segs"
      "r2 = Inr () \<longrightarrow>
            stored w2 = stored w1
              @ map (\<lambda>p. (cid, Platform_value (platform p), content p)) rest"
      "readable env \<and> undisturbed env \<and> (\<forall>n. store_reply env n = None) \<longrightarrow> r2 = Inr ()"
      by blast
    let ?segs = "seg # segs"
    have idx: "\<forall>i<length (piece # rest). length (?segs ! i) \<le> 3
            \<and> (\<forall>p\<in>set (?segs ! i). commentary (fst p) = outgoing_text ((piece # rest) ! i))"
    proof (intro allI impI)
      fix i assume "i < length (piece # rest)"
      then show "length (?segs ! i) \<le> 3
            \<and> (\<forall>p\<in>set (?segs ! i). commentary (fst p) = outgoing_text ((piece # rest) ! i))"
        using seg(2,3) segs(3) by (cases i) simp_all
    qed
    have "length ?segs = length (piece # rest)" using segs(1) by simp
    moreover have "posts w' = posts w @ concat ?segs" using res seg(1) segs(2) by simp
    moreover have "\<not> auto \<longrightarrow> concat ?segs = []" using seg(4) segs(4) by simp
    moreover have "pieces' = map2 (piece_after auto) (piece # rest) ?segs"
      using res seg(5) segs(5) by simp
    moreover have "r = Inr () \<longrightarrow>
            stored w' = stored w
              @ map (\<lambda>p. (cid, Platform_value (platform p), content p)) (piece # rest)"
      using res seg(6) segs(6) Inr by simp
    moreover have "readable env \<and> undisturbed env \<and> (\<forall>n. store_reply env n = None) \<longrightarrow> r = Inr ()"
      using res segs(7) by simp
    ultimately show ?thesis using idx by blast
  qed
qed

lemma publisher_piece_draft:
  "publisher_piece env cid False piece w =
     (case fst (ws_broadcast env
                  (new_event cid PUBLISHER COMPLETED (Some (platform piece))
                     ''LinkedIn content saved as draft (auto-publish off)'' None) w) of
        Inl e \<Rightarrow>
          (Inl e, piece,
           snd (ws_broadcast env
                  (new_event cid PUBLISHER COMPLETED (Some (platform piece))
                     ''LinkedIn content saved as draft (auto-publish off)'' None) w))
      | Inr u \<Rightarrow>
          (fst (store_campaign_results env cid (Platform_value (platform piece)) (content piece)
                  (snd (ws_broadcast env
                          (new_event cid PUBLISHER COMPLETED (Some (platform piece))
                             ''LinkedIn content saved as draft (auto-publish off)'' None) w))),
           piece,
           snd (store_campaign_results env cid (Platform_value (platform piece)) (content piece)
                  (snd (ws_broadcast env
                          (new_event cid PUBLISHER COMPLETED (Some (platform piece))
                             ''LinkedIn content saved as draft (auto-publish off)'' None) w)))))"
  by (simp add: publisher_piece_def publish_or_save_def split_beta split: sum.splits)

lemma PublisherAgent_run_draft:
  assumes "PublisherAgent_run env cid pieces False w = (r, pieces', w')"
  shows "pieces' = pieces \<and> posts w' = posts w \<and> userinfo_log w' = userinfo_log w
      \<and> token_calls w' = token_calls w \<and> refresh_log w' = refresh_log w
      \<and> sleeps w' = sleeps w \<and> access_token w' = access_token w
      \<and> cached_user_urn w' = cached_user_urn w
      \<and> (undisturbed env \<and> (\<forall>n. store_reply env n = None) \<longrightarrow> r = Inr ())"
  using assms
proof (induction pieces arbitrary: w r pieces' w')
  case Nil
  then show ?case by auto
next
  case (Cons piece rest)
  let ?bc = "ws_broadcast env
               (new_event cid PUBLISHER COMPLETED (Some (platform piece))
                  ''LinkedIn content saved as draft (auto-publish off)'' None) w"
  let ?st = "store_campaign_results env cid (Platform_value (platform piece)) (content piece)
               (snd ?bc)"
  note one = publisher_piece_draft [of env cid piece w]
  show ?case
  proof (cases "fst ?bc")
    case (Inl e)
    then have "pieces' = piece # rest" "w' = snd ?bc" "r = Inl e"
      using Cons.prems one by simp_all
    moreover have "\<not> undisturbed env" using Inl by auto
    ultimately show ?thesis by simp
  next
    case sent: (Inr u0)
    show ?thesis
    proof (cases "fst ?st")
      case (Inl e)
      then have "pieces' = piece # rest" "w' = snd ?st" "r = Inl e"
        using Cons.prems one sent by simp_all
      moreover have "store_reply env (length (stored w)) \<noteq> None"
        using Inl by (auto split: option.splits)
      ultimately show ?thesis by auto
    next
      case (Inr u)
      obtain r2 rest' w2 where two:
        "PublisherAgent_run env cid rest False (snd ?st) = (r2, rest', w2)"
        by (cases "PublisherAgent_run env cid rest False (snd ?st)")
      have "r = r2" "pieces' = piece # rest'" "w' = w2"
        using Cons.prems one two sent Inr by simp_all
      then show ?thesis using Cons.IH [OF two] by simp
    qed
  qed
qed

lemmas stage_eval = publisher_piece_def publish_or_save_def ws_broadcast_eq
  store_campaign_results_def store_fine_def nobody_meanwhile_def nobody_arrives_def

lemma nth_map2_piece_after:
  "length segs = length ps \<Longrightarrow> i < length ps \<Longrightarrow>
     map2 (piece_after auto) ps segs ! i = piece_after auto (ps ! i) (segs ! i)"
  by simp

text \<open>
  Claim C6. After \<open>PublisherAgent.run\<close> every piece is the piece it was, except that its
  publication flag may have been set; a flag that was false and is now true belongs to a
  piece for which, in auto-publish mode, a request carrying the piece's text was answered
  200 or 201. In one pass the flag is set exactly when \<open>_publish_linkedin\<close> was called
  (the broadcast before it having returned) and returned true: a piece whose publish call
  returned false or raised or was not made, and every piece when auto-publish is off, is
  left as it was.
\<close>

theorem publication_flag_only_after_success:
  assumes "PublisherAgent_run env cid pieces auto w = (r, pieces', w')"
  shows "length pieces' = length pieces
    \<and> (\<forall>i<length pieces.
          pieces' ! i = pieces ! i \<or> pieces' ! i = (pieces ! i)\<lparr>published := True\<rparr>)
    \<and> (\<forall>i<length pieces. published (pieces' ! i) \<and> \<not> published (pieces ! i) \<longrightarrow>
          auto \<and> (\<exists>p\<in>set (new_posts w w').
                    commentary (fst p) = outgoing_text (pieces ! i)
                    \<and> (snd p = Response 200 \<or> snd p = Response 201)))
    \<and> (\<not> auto \<longrightarrow> pieces' = pieces)
    \<and> (\<forall>piece w0.
          fst (snd (publish_or_save env cid True piece w0)) =
            (if fst (ws_broadcast env
                       (new_event cid PUBLISHER RUNNING (Some (platform piece))
                          ''Publishing to LinkedIn...'' None) w0) = Inr ()
                \<and> fst (publish_linkedin env piece 3
                       (snd (ws_broadcast env
                               (new_event cid PUBLISHER RUNNING (Some (platform piece))
                                  ''Publishing to LinkedIn...'' None) w0))) = Inr True
             then piece\<lparr>published := True\<rparr> else piece))
    \<and> (\<forall>piece w0. fst (snd (publish_or_save env cid False piece w0)) = piece)"
proof -
  from PublisherAgent_run_segments [OF assms] obtain segs where segs:
    "length segs = length pieces" "posts w' = posts w @ concat segs"
    "\<forall>i<length pieces. length (segs ! i) \<le> 3
        \<and> (\<forall>p\<in>set (segs ! i). commentary (fst p) = outgoing_text (pieces ! i))"
    "\<not> auto \<longrightarrow> concat segs = []"
    "pieces' = map2 (piece_after auto) pieces segs"
    by blast
  have np: "new_posts w w' = concat segs" using segs(2) by (simp add: new_posts_def)
  have len: "length pieces' = length pieces" using segs(1,5) by simp
  have nth: "\<And>i. i < length pieces \<Longrightarrow> pieces' ! i = piece_after auto (pieces ! i) (segs ! i)"
    using segs(1,5) by simp
  have same: "\<forall>i<length pieces.
          pieces' ! i = pieces ! i \<or> pieces' ! i = (pieces ! i)\<lparr>published := True\<rparr>"
    using nth by (simp add: piece_after_def)
  have flag: "\<forall>i<length pieces. published (pieces' ! i) \<and> \<not> published (pieces ! i) \<longrightarrow>
          auto \<and> (\<exists>p\<in>set (new_posts w w').
                    commentary (fst p) = outgoing_text (pieces ! i)
                    \<and> (snd p = Response 200 \<or> snd p = Response 201))"
  proof (intro allI impI)
    fix i assume i: "i < length pieces"
      and f: "published (pieces' ! i) \<and> \<not> published (pieces ! i)"
    have c: "auto \<and> segs ! i \<noteq> []
        \<and> (snd (last (segs ! i)) = Response 200 \<or> snd (last (segs ! i)) = Response 201)"
      using f nth [OF i] by (auto simp: piece_after_def split: if_splits)
    then have "last (segs ! i) \<in> set (segs ! i)" by simp
    moreover have "segs ! i \<in> set segs" using i segs(1) by simp
    then have "set (segs ! i) \<subseteq> set (concat segs)" by auto
    ultimately have "last (segs ! i) \<in> set (new_posts w w')" using np by auto
    moreover have "commentary (fst (last (segs ! i))) = outgoing_text (pieces ! i)"
      using segs(3) i c by simp
    ultimately show "auto \<and> (\<exists>p\<in>set (new_posts w w').
                    commentary (fst p) = outgoing_text (pieces ! i)
                    \<and> (snd p = Response 200 \<or> snd p = Response 201))"
      using c by blast
  qed
  have draft: "\<not> auto \<longrightarrow> pieces' = pieces"
  proof
    assume "\<not> auto"
    then show "pieces' = pieces"
      using len nth by (intro nth_equalityI) simp_all
  qed
  have pass_on: "\<forall>piece w0.
          fst (snd (publish_or_save env cid True piece w0)) =
            (if fst (ws_broadcast env
                       (new_event cid PUBLISHER RUNNING (Some (platform piece))
                          ''Publishing to LinkedIn...'' None) w0) = Inr ()
                \<and> fst (publish_linkedin env piece 3
                       (snd (ws_broadcast env
                               (new_event cid PUBLISHER RUNNING (Some (platform piece))
                                  ''Publishing to LinkedIn...'' None) w0))) = Inr True
             then piece\<lparr>published := True\<rparr> else piece)"
    by (auto simp: publish_or_save_def split_beta split: sum.splits)
  have pass_off: "\<forall>piece w0. fst (snd (publish_or_save env cid False piece w0)) = piece"
    by (simp add: publish_or_save_def split_beta)
  from len same flag draft pass_on pass_off show ?thesis by (intro conjI)
qed


lemma two_pieces_eval:
  "fst (PublisherAgent_run (sample_env [Response 403, Response 201] token_fresh) ''camp1''
          [sample_piece, long_piece] True sample_world) = Inr ()"
  "fst (snd (PublisherAgent_run (sample_env [Response 403, Response 201] token_fresh) ''camp1''
          [sample_piece, long_piece] True sample_world))
     = [sample_piece, long_piece\<lparr>published := True\<rparr>]"
  "map snd (posts (snd (snd (PublisherAgent_run
          (sample_env [Response 403, Response 201] token_fresh) ''camp1''
          [sample_piece, long_piece] True sample_world))))
     = [Response 403, Response 201]"
  "stored (snd (snd (PublisherAgent_run
          (sample_env [Response 403, Response 201] token_fresh) ''camp1''
          [sample_piece, long_piece] True sample_world)))
     = [(''camp1'', ''linkedin'', content sample_piece),
        (''camp1'', ''linkedin'', content long_piece)]"
  by (simp_all add: stage_eval publish_eval sample_piece_def long_piece_def del: upt_Suc)


theorem publication_flag_only_after_success_witness:
  "fst (snd (PublisherAgent_run (sample_env [Response 403, Response 201] token_fresh) ''camp1''
          [sample_piece, long_piece] True sample_world))
     = [sample_piece, long_piece\<lparr>published := True\<rparr>]
   \<and> map snd (new_posts sample_world (snd (snd (PublisherAgent_run
          (sample_env [Response 403, Response 201] token_fresh) ''camp1''
          [sample_piece, long_piece] True sample_world))))
     = [Response 403, Response 201]"
  using publication_flag_only_after_success
    [of "sample_env [Response 403, Response 201] token_fresh" "''camp1''"
        "[sample_piece, long_piece]" True sample_world
        "fst (PublisherAgent_run (sample_env [Response 403, Response 201] token_fresh)
                ''camp1'' [sample_piece, long_piece] True sample_world)"
        "fst (snd (PublisherAgent_run (sample_env [Response 403, Response 201] token_fresh)
                ''camp1'' [sample_piece, long_piece] True sample_world))"
        "snd (snd (PublisherAgent_run (sample_env [Response 403, Response 201] token_fresh)
                ''camp1'' [sample_piece, long_piece] True sample_world))"]
    two_pieces_eval(2,3)
  by (simp add: new_posts_def sample_world_def)

text \<open>
  As long as nothing raises (the bodies read can be read, no broadcast is disturbed, the
  similarity store takes every piece), \<open>PublisherAgent.run\<close> returns normally with all
  the pieces it was given, each of them stored, whatever the platform answers: a publish
  call that returns false leaves its piece as it was and the loop goes on.
\<close>

lemma batch_continues_when_nothing_raises:
  assumes "PublisherAgent_run env cid pieces auto w = (r, pieces', w')"
    and "readable env" and "undisturbed env" and "\<forall>n. store_reply env n = None"
  shows "r = Inr () \<and> length pieces' = length pieces
    \<and> stored w' = stored w @ map (\<lambda>p. (cid, Platform_value (platform p), content p)) pieces
    \<and> (\<exists>segs. length segs = length pieces \<and> new_posts w w' = concat segs
          \<and> (\<forall>i<length pieces.
                length (segs ! i) \<le> 3
                \<and> (\<forall>p\<in>set (segs ! i). commentary (fst p) = outgoing_text (pieces ! i))
                \<and> pieces' ! i =
                    (if auto \<and> segs ! i \<noteq> []
                        \<and> (snd (last (segs ! i)) = Response 200
                           \<or> snd (last (segs ! i)) = Response 201)
                     then (pieces ! i)\<lparr>published := True\<rparr> else pieces ! i)))"
proof -
  from PublisherAgent_run_segments [OF assms(1)] obtain segs where segs:
    "length segs = length pieces" "posts w' = posts w @ concat segs"
    "\<forall>i<length pieces. length (segs ! i) \<le> 3
        \<and> (\<forall>p\<in>set (segs ! i). commentary (fst p) = outgoing_text (pieces ! i))"
    "pieces' = map2 (piece_after auto) pieces segs"
    "r = Inr () \<longrightarrow>
        stored w' = stored w @ map (\<lambda>p. (cid, Platform_value (platform p), content p)) pieces"
    "readable env \<and> undisturbed env \<and> (\<forall>n. store_reply env n = None) \<longrightarrow> r = Inr ()"
    by blast
  have ok: "r = Inr ()" using segs(6) assms(2,3,4) by simp
  have len: "length pieces' = length pieces" using segs(1,4) by simp
  have st: "stored w' = stored w
      @ map (\<lambda>p. (cid, Platform_value (platform p), content p)) pieces"
    using segs(5) ok by simp
  have np: "new_posts w w' = concat segs" using segs(2) by (simp add: new_posts_def)
  have each: "\<forall>i<length pieces.
                length (segs ! i) \<le> 3
                \<and> (\<forall>p\<in>set (segs ! i). commentary (fst p) = outgoing_text (pieces ! i))
                \<and> pieces' ! i =
                    (if auto \<and> segs ! i \<noteq> []
                        \<and> (snd (last (segs ! i)) = Response 200
                           \<or> snd (last (segs ! i)) = Response 201)
                     then (pieces ! i)\<lparr>published := True\<rparr> else pieces ! i)"
    using segs(1,3,4) by (simp add: piece_after_def)
  from segs(1) np each have "\<exists>segs. length segs = length pieces \<and> new_posts w w' = concat segs
          \<and> (\<forall>i<length pieces.
                length (segs ! i) \<le> 3
                \<and> (\<forall>p\<in>set (segs ! i). commentary (fst p) = outgoing_text (pieces ! i))
                \<and> pieces' ! i =
                    (if auto \<and> segs ! i \<noteq> []
                        \<and> (snd (last (segs ! i)) = Response 200
                           \<or> snd (last (segs ! i)) = Response 201)
                     then (pieces ! i)\<lparr>published := True\<rparr> else pieces ! i))"
    by (intro exI [of _ segs] conjI)
  with ok len st show ?thesis by (intro conjI)
qed

text \<open>
  Claim C7 fails on the code. A batch of two pieces is auto-published; the platform
  answers 401 to the request of the first piece and would answer 201 to the next
  request; the token endpoint answers the refresh with a status 200 whose body has no
  \<open>access_token\<close>. \<open>_refresh_token\<close> returns false on every other failure of the
  exchange, but reads \<open>data["access_token"]\<close> unguarded: the \<open>KeyError\<close> leaves
  \<open>_publish_linkedin\<close> and \<open>PublisherAgent.run\<close>. The publish failure of the first
  piece has aborted the batch: the second piece is never sent, no piece is stored, and
  the only event is the first \<open>running\<close> one. When the same exchange is refused with a
  status 400, the first piece fails alone and the second one is published.
\<close>

theorem refresh_KeyError_aborts_batch:
  "fst (PublisherAgent_run (sample_env [Response 401, Response 201] token_without_access)
          ''camp1'' [sample_piece, long_piece] True sample_world)
     = Inl (KeyError ''access_token'')
   \<and> fst (snd (PublisherAgent_run
          (sample_env [Response 401, Response 201] token_without_access)
          ''camp1'' [sample_piece, long_piece] True sample_world))
     = [sample_piece, long_piece]
   \<and> map snd (posts (snd (snd (PublisherAgent_run
          (sample_env [Response 401, Response 201] token_without_access)
          ''camp1'' [sample_piece, long_piece] True sample_world))))
     = [Response 401]
   \<and> stored (snd (snd (PublisherAgent_run
          (sample_env [Response 401, Response 201] token_without_access)
          ''camp1'' [sample_piece, long_piece] True sample_world)))
     = []
   \<and> map event_status (emitted (snd (snd (PublisherAgent_run
          (sample_env [Response 401, Response 201] token_without_access)
          ''camp1'' [sample_piece, long_piece] True sample_world))))
     = [RUNNING]
   \<and> fst (PublisherAgent_run (sample_env [Response 401, Response 201] token_denied)
          ''camp1'' [sample_piece, long_piece] True sample_world)
     = Inr ()
   \<and> fst (snd (PublisherAgent_run (sample_env [Response 401, Response 201] token_denied)
          ''camp1'' [sample_piece, long_piece] True sample_world))
     = [sample_piece, long_piece\<lparr>published := True\<rparr>]
   \<and> map snd (posts (snd (snd (PublisherAgent_run
          (sample_env [Response 401, Response 201] token_denied)
          ''camp1'' [sample_piece, long_piece] True sample_world))))
     = [Response 401, Response 201]"
  by (simp add: stage_eval publish_eval token_without_access_def token_denied_def
        sample_piece_def long_piece_def new_event_def del: upt_Suc)

text \<open>
  Claim C10. With auto-publish off, \<open>PublisherAgent.run\<close> leaves every piece exactly as it
  was (flag, body text and hashtags included) and makes no call to the platform: no
  publish request, no userinfo request, no token exchange, no refresh, no back-off, the
  credential state untouched. It returns normally whenever the similarity store takes
  the pieces and no broadcast is disturbed.
\<close>

theorem draft_mode_is_a_no_op_on_pieces:
  assumes "PublisherAgent_run env cid pieces False w = (r, pieces', w')"
  shows "pieces' = pieces \<and> posts w' = posts w \<and> userinfo_log w' = userinfo_log w
    \<and> token_calls w' = token_calls w \<and> refresh_log w' = refresh_log w
    \<and> sleeps w' = sleeps w \<and> access_token w' = access_token w
    \<and> cached_user_urn w' = cached_user_urn w
    \<and> (undisturbed env \<and> (\<forall>n. store_reply env n = None) \<longrightarrow> r = Inr ())
    \<and> (r = Inr () \<longrightarrow>
          stored w' = stored w
            @ map (\<lambda>p. (cid, Platform_value (platform p), content p)) pieces)"
proof -
  from PublisherAgent_run_segments [OF assms]
  have "r = Inr () \<longrightarrow>
          stored w' = stored w
            @ map (\<lambda>p. (cid, Platform_value (platform p), content p)) pieces"
    by blast
  then show ?thesis using PublisherAgent_run_draft [OF assms] by blast
qed

theorem draft_mode_is_a_no_op_on_pieces_witness:
  "PublisherAgent_run (sample_env [Response 201] token_fresh) ''camp1''
          [sample_piece, long_piece] False sample_world
     = (Inr (), [sample_piece, long_piece],
        snd (snd (PublisherAgent_run (sample_env [Response 201] token_fresh) ''camp1''
                    [sample_piece, long_piece] False sample_world)))
   \<and> posts (snd (snd (PublisherAgent_run (sample_env [Response 201] token_fresh) ''camp1''
                    [sample_piece, long_piece] False sample_world))) = []"
  using draft_mode_is_a_no_op_on_pieces
    [of "sample_env [Response 201] token_fresh" "''camp1''" "[sample_piece, long_piece]"
        sample_world
        "fst (PublisherAgent_run (sample_env [Response 201] token_fresh) ''camp1''
                [sample_piece, long_piece] False sample_world)"
        "fst (snd (PublisherAgent_run (sample_env [Response 201] token_fresh) ''camp1''
                [sample_piece, long_piece] False sample_world))"
        "snd (snd (PublisherAgent_run (sample_env [Response 201] token_fresh) ''camp1''
                [sample_piece, long_piece] False sample_world))"]
  by (simp add: prod_eq_iff sample_env_def store_fine_def sample_world_def undisturbed_def
        nobody_meanwhile_def)

section \<open>The connection manager: disconnecting twice\<close>

text \<open>
  Claim C9 fails on the code. Two sockets watch \<open>camp1\<close>; a broadcast finds the first
  one dead and evicts it; the endpoint of that socket then runs its own \<open>disconnect\<close>,
  the second one for this handle. The entry of \<open>camp1\<close> is still there for the other
  watcher, so \<open>list.remove\<close> raises \<open>ValueError\<close> for the handle that is no longer in
  the list. The second \<open>disconnect\<close> is the no-op the claim describes only when the
  first one emptied the list: the entry is then gone and the guard on the campaign id
  skips the removal (socket 4 of \<open>camp2\<close>).
\<close>

theorem disconnect_twice_raises_ValueError:
  "connect True 1 ''camp1'' Map.empty = Inr [''camp1'' \<mapsto> [1]]
   \<and> connect True 2 ''camp1'' [''camp1'' \<mapsto> [1]] = Inr two_watchers
   \<and> fst (snd (broadcast_event first_is_dead [] sample_event two_watchers))
        = [''camp1'' \<mapsto> [2]]
   \<and> disconnect 1 ''camp1'' [''camp1'' \<mapsto> [2]]
        = Inl (ValueError ''list.remove(x): x not in list'')
   \<and> disconnect 4 ''camp2'' sample_registry = Inr (sample_registry(''camp2'' := None))
   \<and> disconnect 4 ''camp2'' (sample_registry(''camp2'' := None))
        = Inr (sample_registry(''camp2'' := None))"
  by (simp add: connect_def disconnect_def broadcast_event_eq two_watchers_def
        first_is_dead_def sample_event_def sample_registry_def send_all_enumerate
        kept_sockets_def)

section \<open>The orchestrator\<close>

lemma final_broadcast_returns:
  "undisturbed env \<Longrightarrow>
     bind (ws_broadcast env event) (\<lambda>u. return resp) w
       = (Inr resp, snd (ws_broadcast env event w))"
  by (simp add: bind_def return_def ws_broadcast_eq undisturbed_def)

lemma search_similar_frame [simp]:
  "posts (snd (search_similar env w)) = posts w"
  "stored (snd (search_similar env w)) = stored w"
  "emitted (snd (search_similar env w)) = emitted w"
  "llm_calls (snd (search_similar env w)) = llm_calls w"
  by (simp_all add: search_similar_def)

lemma llm_invoke_frame [simp]:
  "posts (snd (llm_invoke env who vars w)) = posts w"
  "stored (snd (llm_invoke env who vars w)) = stored w"
  "emitted (snd (llm_invoke env who vars w)) = emitted w"
  "llm_calls (snd (llm_invoke env who vars w)) = llm_calls w @ [(who, vars)]"
  by (simp_all add: llm_invoke_def)

lemma TrendAgent_run_frame:
  "posts (snd (TrendAgent_run env cid t a tn ps w)) = posts w
   \<and> stored (snd (TrendAgent_run env cid t a tn ps w)) = stored w
   \<and> (\<forall>ev\<in>set (drop (length (emitted w)) (emitted (snd (TrendAgent_run env cid t a tn ps w)))).
         agent ev = TREND)
   \<and> length (emitted w) \<le> length (emitted (snd (TrendAgent_run env cid t a tn ps w)))
   \<and> (\<forall>c\<in>set (drop (length (llm_calls w)) (llm_calls (snd (TrendAgent_run env cid t a tn ps w)))).
         fst c = TREND)
   \<and> length (llm_calls w) \<le> length (llm_calls (snd (TrendAgent_run env cid t a tn ps w)))"
  by (simp add: TrendAgent_run_def bind_def return_def split_beta new_event_def
        split: sum.splits)


text \<open>
  When no broadcast is disturbed, \<open>run_campaign\<close> returns a response: its status is
  "failed" when a stage raised and "completed" when all three returned, and when the
  research stage raises the response has no content piece and nothing of the other two
  stages has happened.
\<close>

lemma run_campaign_undisturbed:
  assumes quiet: "undisturbed env"
  shows "\<exists>resp. fst (run_campaign env request cid_arg w) = Inr resp
     \<and> campaign_id resp = chosen_campaign_id env cid_arg
     \<and> (status resp = ''completed'' \<or> status resp = ''failed'')
     \<and> (\<forall>e w1. research_stage env request (chosen_campaign_id env cid_arg) w = (Inl e, w1) \<longrightarrow>
           status resp = ''failed'' \<and> response_content resp = []
           \<and> posts (snd (run_campaign env request cid_arg w)) = posts w
           \<and> stored (snd (run_campaign env request cid_arg w)) = stored w
           \<and> (\<forall>ev\<in>set (drop (length (emitted w))
                            (emitted (snd (run_campaign env request cid_arg w)))).
                 agent ev = TREND)
           \<and> (\<forall>c\<in>set (drop (length (llm_calls w))
                           (llm_calls (snd (run_campaign env request cid_arg w)))).
                 fst c = TREND))
     \<and> (\<forall>brief w1 e w2.
           research_stage env request (chosen_campaign_id env cid_arg) w = (Inr brief, w1)
           \<and> draft_stage env request (chosen_campaign_id env cid_arg) brief w1 = (Inl e, w2) \<longrightarrow>
           status resp = ''failed'' \<and> response_content resp = [])
     \<and> (\<forall>brief w1 content_pieces w2 r pieces w3.
           research_stage env request (chosen_campaign_id env cid_arg) w = (Inr brief, w1)
           \<and> draft_stage env request (chosen_campaign_id env cid_arg) brief w1
               = (Inr content_pieces, w2)
           \<and> publish_stage env request (chosen_campaign_id env cid_arg) content_pieces w2
               = (r, pieces, w3) \<longrightarrow>
           status resp = (case r of Inl e \<Rightarrow> ''failed'' | Inr u \<Rightarrow> ''completed'')
           \<and> response_content resp = pieces)"
proof -
  let ?cid = "chosen_campaign_id env cid_arg"
  obtain r1 w1 where research: "research_stage env request ?cid w = (r1, w1)"
    by (cases "research_stage env request ?cid w")
  show ?thesis
  proof (cases r1)
    case (Inl e)
    let ?ev = "final_event ?cid TREND FAILED (''Trend Agent failed: '' @ str_exception e)"
    have run: "run_campaign env request cid_arg w =
        (Inr (CampaignResponse_of ?cid request ''failed'' [] (''Error: '' @ str_exception e)),
         snd (ws_broadcast env ?ev w1))"
      using research Inl by (simp add: run_campaign_def Let_def final_broadcast_returns [OF quiet])
    have w1: "w1 = snd (TrendAgent_run env ?cid (request_topic request)
                 (target_audience request) (tone request)
                 (map Platform_value (platforms request)) w)"
      using research by (simp add: research_stage_def)
    note fr = TrendAgent_run_frame [of env ?cid "request_topic request"
        "target_audience request" "tone request" "map Platform_value (platforms request)" w]
    have p: "posts w1 = posts w" and st: "stored w1 = stored w"
      and el: "length (emitted w) \<le> length (emitted w1)"
      and ev: "\<forall>ev\<in>set (drop (length (emitted w)) (emitted w1)). agent ev = TREND"
      and ll: "\<forall>c\<in>set (drop (length (llm_calls w)) (llm_calls w1)). fst c = TREND"
      using fr w1 by simp_all
    have "agent ?ev = TREND" by (simp add: final_event_def new_event_def)
    then have ev': "\<forall>ev\<in>set (drop (length (emitted w))
          (emitted (snd (ws_broadcast env ?ev w1)))). agent ev = TREND"
      using ev el by auto
    show ?thesis
      using run research Inl p st ev' ll
      by (intro exI [of _ "CampaignResponse_of ?cid request ''failed'' []
                             (''Error: '' @ str_exception e)"])
         (simp add: CampaignResponse_of_def)
  next
    case (Inr brief)
    note r1 = this
    obtain r2 w2 where draft: "draft_stage env request ?cid brief w1 = (r2, w2)"
      by (cases "draft_stage env request ?cid brief w1")
    show ?thesis
    proof (cases r2)
      case (Inl e)
      have run: "fst (run_campaign env request cid_arg w) =
          Inr (CampaignResponse_of ?cid request ''failed'' [] brief)"
        using research r1 draft Inl by (simp add: run_campaign_def Let_def final_broadcast_returns [OF quiet])
      show ?thesis
        using run research r1 draft Inl
        by (intro exI [of _ "CampaignResponse_of ?cid request ''failed'' [] brief"])
           (simp add: CampaignResponse_of_def)
    next
      case (Inr content_pieces)
      note r2 = this
      obtain r3 pieces w3 where
        publish: "publish_stage env request ?cid content_pieces w2 = (r3, pieces, w3)"
        by (cases "publish_stage env request ?cid content_pieces w2")
      let ?st = "case r3 of Inl e \<Rightarrow> ''failed'' | Inr u \<Rightarrow> ''completed''"
      have run: "fst (run_campaign env request cid_arg w) =
          Inr (CampaignResponse_of ?cid request ?st pieces brief)"
        using research r1 draft r2 publish
        by (cases r3) (simp_all add: run_campaign_def Let_def final_broadcast_returns [OF quiet])
      have "?st = ''completed'' \<or> ?st = ''failed''" by (cases r3) simp_all
      then show ?thesis
        using run research r1 draft r2 publish
        by (intro exI [of _ "CampaignResponse_of ?cid request ?st pieces brief"])
           (simp add: CampaignResponse_of_def)
    qed
  qed
qed


lemmas campaign_eval = run_campaign_def chosen_campaign_id_def research_stage_def
  draft_stage_def publish_stage_def TrendAgent_run_def WriterAgent_run_def write_piece_def
  parse_content_def parse_plain_def bind_def return_def search_similar_def llm_invoke_def
  search_nothing_def llm_fine_def llm_down_def llm_down_env_def sample_request_def
  CampaignResponse_of_def final_event_def Let_def

text \<open>
  Claim C1 fails on the code. Two dashboards watch \<open>camp1\<close>. The research stage fails
  (the language model is down) and its exception is caught; the \<open>except\<close> clause then
  broadcasts the final \<open>failed\<close> event, outside every \<open>try\<close>. The send to socket 1
  raises, its connection being lost, and while the broadcast awaits the send to socket 2
  the endpoint of socket 1 runs its \<open>disconnect\<close>: the second loop of
  \<open>broadcast_event\<close> calls \<open>disconnect\<close> for a socket that is no longer in the list,
  and the \<open>ValueError\<close> of \<open>list.remove\<close> leaves \<open>run_campaign\<close>, which returns no
  response.
\<close>

theorem run_campaign_raises_ValueError:
  "fst (research_stage racing_env (sample_request True) ''camp1'' watched_world)
     = Inl (Failure ''overloaded'')
   \<and> fst (run_campaign racing_env (sample_request True) (Some ''camp1'') watched_world)
     = Inl (ValueError ''list.remove(x): x not in list'')
   \<and> map event_status
       (emitted (snd (run_campaign racing_env (sample_request True) (Some ''camp1'')
                        watched_world)))
     = [RUNNING, RUNNING, FAILED]
   \<and> active_connections
       (snd (run_campaign racing_env (sample_request True) (Some ''camp1'') watched_world))
     = [''camp1'' \<mapsto> [2]]"
  by (simp add: campaign_eval racing_env_def watched_world_def sample_world_def
        sample_env_def first_lost_later_def endpoint_of_first_def nobody_arrives_def
        ws_broadcast_def broadcast_event_def iterated_def disconnect_def two_watchers_def
        new_event_def)

end
